theory Spec2Isabelle
  imports Main
begin

section \<open>C strings, buffers and memory faults\<close>

text \<open>
  A C string is modelled by the list of its bytes before the terminating NUL. A pointer
  into a buffer is an index; a null pointer is \<open>None\<close>. Behaviour that C leaves
  undefined (a read outside a buffer, a read of an entry never written, a null pointer
  handed to \<open>strcmp\<close>) is a value of type \<open>fault\<close>, returned on the left of a sum.
  Memory allocation is taken to succeed: the \<open>err(1, ...)\<close> exits after a failed
  \<open>realloc\<close> or \<open>malloc\<close> are not part of the model.
\<close>

datatype fault = OutOfBounds nat | NullPointer | Uninitialised nat

abbreviation NUL :: char where
  "NUL \<equiv> CHR 0x00"

abbreviation BACKSLASH :: char where
  "BACKSLASH \<equiv> CHR 0x5C"

abbreviation NL :: string where
  "NL \<equiv> [CHR 0x0A]"

definition MAX_WORDS :: nat where
  "MAX_WORDS = 512"

text \<open>\<open>isspace\<close> of the C library in the C locale: space, tab, newline, vertical tab, form feed, carriage return.\<close>

definition isspace :: "char \<Rightarrow> bool" where
  "isspace c \<longleftrightarrow> c = CHR '' '' \<or> c = CHR 0x09 \<or> c = CHR 0x0A \<or> c = CHR 0x0B \<or> c = CHR 0x0C \<or> c = CHR 0x0D"

text \<open>
  \<open>deref line c\<close> is the read \<open>*c\<close> where \<open>c\<close> points at offset \<open>c\<close> of the buffer
  holding \<open>line\<close> followed by its terminating NUL. Offsets beyond the terminator are
  outside the string.
\<close>

definition deref :: "string \<Rightarrow> nat \<Rightarrow> fault + char" where
  "deref line c =
     (if c < length line then Inr (line ! c)
      else if c = length line then Inr NUL
      else Inl (OutOfBounds c))"

section \<open>Tokenizer: \<open>wordsplit\<close>\<close>

text \<open>The loop \<open>for (; *c && isspace(*c); ++c);\<close>, returning the final \<open>c\<close>.\<close>

function skip_space :: "string \<Rightarrow> nat \<Rightarrow> fault + nat" where
  "skip_space line c =
     (case deref line c of
        Inl f \<Rightarrow> Inl f
      | Inr ch \<Rightarrow> if ch \<noteq> NUL \<and> isspace ch then skip_space line (Suc c) else Inr c)"
  by pat_completeness auto
termination
  by (relation "measure (\<lambda>(line, c). Suc (length line) - c)")
     (auto simp: deref_def split: if_splits)

declare skip_space.simps [simp del]

text \<open>
  The inner loop \<open>for (; *c && !isspace(*c); ++c)\<close> that reads one word. \<open>w\<close> holds the
  \<open>wlen\<close> bytes stored so far in \<open>words[wind]\<close> (the buffer's own terminator is left
  implicit). A backslash advances \<open>c\<close> once more before the byte is copied.
\<close>

function read_word :: "string \<Rightarrow> nat \<Rightarrow> string \<Rightarrow> fault + (nat \<times> string)" where
  "read_word line c w =
     (case deref line c of
        Inl f \<Rightarrow> Inl f
      | Inr ch \<Rightarrow>
          if ch \<noteq> NUL \<and> \<not> isspace ch then
            (let c1 = (if ch = BACKSLASH then Suc c else c) in
             case deref line c1 of
               Inl f \<Rightarrow> Inl f
             | Inr ch1 \<Rightarrow> read_word line (Suc c1) (w @ [ch1]))
          else Inr (c, w))"
  by pat_completeness auto
termination
  by (relation "measure (\<lambda>(line, c, w). length line + 2 - c)")
     (auto simp: deref_def Let_def split: if_splits)

declare read_word.simps [simp del]

lemma skip_space_bounds:
  "skip_space line c = Inr c' \<Longrightarrow> c \<le> c' \<and> c' \<le> length line"
proof (induction line c rule: skip_space.induct)
  case (1 line c)
  show ?case
  proof (cases "deref line c")
    case (Inl f)
    with "1.prems" show ?thesis by (subst (asm) skip_space.simps) simp
  next
    case (Inr ch)
    show ?thesis
    proof (cases "ch \<noteq> NUL \<and> isspace ch")
      case True
      with Inr "1.prems" have "skip_space line (Suc c) = Inr c'"
        by (subst (asm) skip_space.simps) simp
      with "1.IH" [OF Inr True] show ?thesis by simp
    next
      case False
      with Inr "1.prems" have "c' = c"
        by (subst (asm) skip_space.simps) auto
      moreover from Inr have "c \<le> length line"
        by (auto simp: deref_def split: if_splits)
      ultimately show ?thesis by simp
    qed
  qed
qed

lemma skip_space_advances:
  assumes "skip_space line c = Inr c'" "deref line c = Inr ch" "ch \<noteq> NUL" "isspace ch"
  shows "c < c'"
proof -
  from assms have "skip_space line (Suc c) = Inr c'"
    by (subst (asm) skip_space.simps) simp
  from skip_space_bounds [OF this] show ?thesis by simp
qed

lemma read_word_bounds:
  "read_word line c w = Inr (c', w') \<Longrightarrow> c \<le> c' \<and> c' \<le> length line"
proof (induction line c w rule: read_word.induct)
  case (1 line c w)
  show ?case
  proof (cases "deref line c")
    case (Inl f)
    with "1.prems" show ?thesis by (subst (asm) read_word.simps) simp
  next
    case (Inr ch)
    show ?thesis
    proof (cases "ch \<noteq> NUL \<and> \<not> isspace ch")
      case False
      with Inr "1.prems" have "c' = c"
        by (subst (asm) read_word.simps) auto
      moreover from Inr have "c \<le> length line"
        by (auto simp: deref_def split: if_splits)
      ultimately show ?thesis by simp
    next
      case True
      define c1 where "c1 = (if ch = BACKSLASH then Suc c else c)"
      from True Inr "1.prems" obtain ch1 where
        d1: "deref line c1 = Inr ch1" and
        rec: "read_word line (Suc c1) (w @ [ch1]) = Inr (c', w')"
        by (subst (asm) read_word.simps) (auto simp: c1_def Let_def split: sum.splits)
      from "1.IH" [OF Inr True c1_def d1 rec] have "Suc c1 \<le> c'" "c' \<le> length line"
        by simp_all
      moreover have "c \<le> c1" by (simp add: c1_def)
      ultimately show ?thesis by simp
    qed
  qed
qed

lemma read_word_advances:
  assumes "read_word line c w = Inr (c', w')" "deref line c = Inr ch" "ch \<noteq> NUL" "\<not> isspace ch"
  shows "c < c'"
proof -
  define c1 where "c1 = (if ch = BACKSLASH then Suc c else c)"
  from assms obtain ch1 where
    "read_word line (Suc c1) (w @ [ch1]) = Inr (c', w')"
    by (subst (asm) read_word.simps) (auto simp: c1_def Let_def split: sum.splits)
  from read_word_bounds [OF this] have "Suc c1 \<le> c'" by simp
  moreover have "c \<le> c1" by (simp add: c1_def)
  ultimately show ?thesis by simp
qed

text \<open>
  The outer loop of \<open>wordsplit\<close>. \<open>ws\<close> lists \<open>words[0..wind)\<close>, so \<open>wind\<close> is
  \<open>length ws\<close>. Every entry of \<open>words\<close> is null when the loop starts (the main loop
  clears the entries it used), so each word starts from an empty buffer.
\<close>

function split_loop :: "string \<Rightarrow> nat \<Rightarrow> string list \<Rightarrow> fault + string list" where
  "split_loop line c ws =
     (case deref line c of
        Inl f \<Rightarrow> Inl f
      | Inr ch \<Rightarrow>
          if ch \<noteq> NUL then
            if length ws = MAX_WORDS then Inr ws
            else if ch = CHR ''#'' then Inr ws
            else (case read_word line c [] of
                    Inl f \<Rightarrow> Inl f
                  | Inr (c', w) \<Rightarrow>
                      (case skip_space line c' of
                         Inl f \<Rightarrow> Inl f
                       | Inr c'' \<Rightarrow> split_loop line c'' (ws @ [w])))
          else Inr ws)"
  by pat_completeness auto
termination
proof (relation "measure (\<lambda>(line, c, ws). Suc (length line) - c)", goal_cases)
  case 1
  show ?case by simp
next
  case (2 line c ws ch x c' w c'')
  from 2(5) 2(6) have rw: "read_word line c [] = Inr (c', w)" by simp
  have le: "c' \<le> c''" "c'' \<le> length line"
    using skip_space_bounds [OF 2(7)] by simp_all
  have "c < c''"
  proof (cases "isspace ch")
    case True
    have "read_word line c [] = Inr (c, [])"
      by (subst read_word.simps) (simp add: 2(1) True)
    with rw have "c' = c" by simp
    with skip_space_advances [OF 2(7), of ch] 2(1) 2(2) True show ?thesis by simp
  next
    case False
    from read_word_advances [OF rw 2(1) 2(2) False] have "c < c'" .
    with le show ?thesis by simp
  qed
  with le show ?case by simp
qed

declare split_loop.simps [simp del]

definition wordsplit :: "string \<Rightarrow> fault + string list" where
  "wordsplit line =
     (case skip_space line 0 of
        Inl f \<Rightarrow> Inl f
      | Inr c \<Rightarrow> split_loop line c [])"

section \<open>Expander: \<open>param_scan\<close>, \<open>build_str\<close>, \<open>expand\<close>\<close>

text \<open>
  The process environment read by \<open>getenv\<close> and written by \<open>setenv\<close>. The special
  parameters live in it under the names \<open>$\<close>, \<open>?\<close> and \<open>!\<close>.
\<close>

type_synonym environ = "string \<rightharpoonup> string"

text \<open>
  \<open>strchr(str + s, ch)\<close> for a byte \<open>ch\<close> other than NUL: the offset of the first
  \<open>ch\<close> at or after offset \<open>s\<close>, or null. \<open>peek str i\<close> reads \<open>str[i]\<close> for an offset
  up to the terminator.
\<close>

definition strchr :: "string \<Rightarrow> nat \<Rightarrow> char \<Rightarrow> nat option" where
  "strchr str s ch =
     (if ch \<in> set (drop s str)
      then Some (s + length (takeWhile (\<lambda>x. x \<noteq> ch) (drop s str)))
      else None)"

definition peek :: "string \<Rightarrow> nat \<Rightarrow> char" where
  "peek str i = (if i < length str then str ! i else NUL)"

text \<open>
  What \<open>param_scan\<close> hands back: its return value together with \<open>*start\<close> and
  \<open>*end\<close>. The function sets the two pointers exactly when it returns a non-zero
  byte, so the result is either \<open>NoParam\<close> (return value 0, both pointers null) or
  \<open>Param c s e\<close> (return value \<open>c\<close>, \<open>*start\<close> at offset \<open>s\<close>, \<open>*end\<close> at offset \<open>e\<close>).
\<close>

datatype scan = NoParam | Param char nat nat

lemma takeWhile_neq_hit:
  "ch \<in> set xs \<Longrightarrow>
     length (takeWhile (\<lambda>x. x \<noteq> ch) xs) < length xs \<and>
     xs ! length (takeWhile (\<lambda>x. x \<noteq> ch) xs) = ch"
  by (induction xs) auto

lemma strchr_bounds: "strchr str s ch = Some i \<Longrightarrow> s \<le> i \<and> i < length str \<and> str ! i = ch"
proof -
  assume a: "strchr str s ch = Some i"
  let ?r = "drop s str"
  let ?n = "length (takeWhile (\<lambda>x. x \<noteq> ch) ?r)"
  from a have mem: "ch \<in> set ?r" and i: "i = s + ?n"
    by (auto simp: strchr_def split: if_splits)
  from takeWhile_neq_hit [OF mem] have n: "?n < length ?r" and h: "?r ! ?n = ch"
    by simp_all
  from n h i show ?thesis by (simp add: add.commute)
qed

text \<open>
  \<open>param_scan word s\<close> is the call \<open>param_scan(word + s, &start, &end)\<close>; the recursion is the
  \<open>for\<close> loop, entered again with \<open>s = s' + 1\<close> when the switch found nothing. The
  static \<open>prev\<close> is only read when the function is called with a null word, which
  \<open>expand\<close> never does.
\<close>

function param_scan :: "string \<Rightarrow> nat \<Rightarrow> scan" where
  "param_scan word s =
     (if s < length word then
        (case strchr word s (CHR ''$'') of
           None \<Rightarrow> NoParam
         | Some s' \<Rightarrow>
             (let n = peek word (Suc s') in
              if n = CHR ''$'' \<or> n = CHR ''!'' \<or> n = CHR ''?'' then Param n s' (s' + 2)
              else if n = CHR ''{'' then
                (case strchr word (s' + 2) (CHR ''}'') of
                   Some e \<Rightarrow> Param n s' (Suc e)
                 | None \<Rightarrow> param_scan word (Suc s'))
              else param_scan word (Suc s')))
      else NoParam)"
  by pat_completeness auto
termination
  by (relation "measure (\<lambda>(word, s). length word - s)")
     (auto dest!: strchr_bounds)

declare param_scan.simps [simp del]

text \<open>
  \<open>build_str(start, end)\<close> with its static \<open>base\<close> passed in and returned (\<open>base_len\<close> is
  the length of \<open>base\<close>). \<open>start\<close> is a pointer into a buffer, \<open>end\<close> an offset in the same
  buffer or null. The result is the returned pointer and the new \<open>base\<close>.
\<close>

fun build_str :: "(string \<times> nat) option \<Rightarrow> nat option \<Rightarrow> string option \<Rightarrow> string option \<times> string option" where
  "build_str None e base = (base, None)"
| "build_str (Some (buf, s)) e base =
     (let n = (case e of Some e' \<Rightarrow> e' - s | None \<Rightarrow> length buf - s);
          b = (case base of None \<Rightarrow> [] | Some b \<Rightarrow> b) @ take n (drop s buf)
      in (Some b, Some b))"

definition scan_start :: "scan \<Rightarrow> nat option" where
  "scan_start r = (case r of NoParam \<Rightarrow> None | Param c s e \<Rightarrow> Some s)"

text \<open>The \<open>switch (c)\<close> in the loop of \<open>expand\<close>: the value appended for one reference.\<close>

definition substitute :: "environ \<Rightarrow> string \<Rightarrow> char \<Rightarrow> nat \<Rightarrow> nat \<Rightarrow> string option \<Rightarrow> string option" where
  "substitute env word c s e base =
     (if c = CHR ''$'' then
        (case env ''$'' of None \<Rightarrow> snd (build_str (Some ('''', 0)) None base)
         | Some pid \<Rightarrow> snd (build_str (Some (pid, 0)) None base))
      else if c = CHR ''!'' then
        (case env ''!'' of None \<Rightarrow> snd (build_str (Some ('''', 0)) None base)
         | Some pid \<Rightarrow> snd (build_str (Some (pid, 0)) None base))
      else if c = CHR ''?'' then
        (case env ''?'' of None \<Rightarrow> snd (build_str (Some (''0'', 0)) None base)
         | Some status \<Rightarrow> snd (build_str (Some (status, 0)) None base))
      else if c = CHR ''{'' then
        (let env_var = take (e - s - 3) (drop (s + 2) word) in
         case env env_var of None \<Rightarrow> base
         | Some env_val \<Rightarrow> snd (build_str (Some (env_val, 0)) None base))
      else base)"

lemma param_scan_Param:
  "param_scan word pos = Param c s e \<Longrightarrow> pos \<le> s \<and> s + 2 \<le> e \<and> e \<le> length word"
proof (induction word pos rule: param_scan.induct)
  case (1 word p)
  from "1.prems" have lt: "p < length word"
    by (subst (asm) param_scan.simps) (auto split: if_splits)
  from "1.prems" lt obtain s' where s': "strchr word p (CHR ''$'') = Some s'"
    by (subst (asm) param_scan.simps) (auto split: option.splits)
  note b = strchr_bounds [OF s']
  define n where "n = peek word (Suc s')"
  show ?case
  proof (cases "n = CHR ''$'' \<or> n = CHR ''!'' \<or> n = CHR ''?''")
    case True
    with "1.prems" lt s' have "s = s'" "e = s' + 2"
      by (subst (asm) param_scan.simps, simp add: n_def [symmetric])+
    moreover from True have "Suc s' < length word"
      by (auto simp: n_def peek_def split: if_splits)
    ultimately show ?thesis using b by simp
  next
    case False
    note nospecial = this
    show ?thesis
    proof (cases "n = CHR ''{''")
      case True
      show ?thesis
      proof (cases "strchr word (s' + 2) (CHR ''}'')")
        case None
        with "1.prems" lt s' True have "param_scan word (Suc s') = Param c s e"
          by (subst (asm) param_scan.simps) (simp add: n_def [symmetric])
        from "1.IH"(1) [OF lt s' n_def nospecial True None this] b show ?thesis by simp
      next
        case (Some e0)
        with "1.prems" lt s' True have "s = s'" "e = Suc e0"
          by (subst (asm) param_scan.simps, simp add: n_def [symmetric])+
        with strchr_bounds [OF Some] b show ?thesis by simp
      qed
    next
      case False
      with "1.prems" lt s' nospecial have "param_scan word (Suc s') = Param c s e"
        by (subst (asm) param_scan.simps) (simp add: n_def [symmetric])
      from "1.IH"(2) [OF lt s' n_def nospecial False this] b show ?thesis by simp
    qed
  qed
qed

text \<open>The \<open>while (c)\<close> loop of \<open>expand\<close> and its final \<open>return build_str(start, NULL)\<close>.\<close>

function expand_loop :: "environ \<Rightarrow> string \<Rightarrow> scan \<Rightarrow> string option \<Rightarrow> string option" where
  "expand_loop env word NoParam base = fst (build_str None None base)"
| "expand_loop env word (Param c s e) base =
     (let base1 = substitute env word c s e base;
          r = param_scan word e;
          base2 = snd (build_str (Some (word, e)) (scan_start r) base1)
      in expand_loop env word r base2)"
  by pat_completeness auto
termination
  by (relation "measure (\<lambda>(env, word, r, base). case r of NoParam \<Rightarrow> 0 | Param c s e \<Rightarrow> Suc (Suc (length word) - e))")
     (auto split: scan.splits dest!: param_scan_Param)

declare expand_loop.simps [simp del]

definition expand :: "environ \<Rightarrow> string \<Rightarrow> string option" where
  "expand env word =
     (let r = param_scan word 0;
          base0 = snd (build_str None None None);
          base1 = snd (build_str (Some (word, 0)) (scan_start r) base0)
      in expand_loop env word r base1)"

section \<open>Command parser: \<open>parse_command\<close>\<close>

text \<open>
  An entry of an array of \<open>char *\<close>: not yet written (fresh from \<open>malloc\<close>), null, or a
  string. \<open>load\<close> and \<open>store\<close> are the reads and writes \<open>a[i]\<close>; outside the array they are
  faults.
\<close>

datatype cell = Uninit | Null | Str string

text \<open>
  The global \<open>words\<close> array has \<open>MAX_WORDS\<close> entries. It is given by the list of its
  leading non-null entries; the entries behind them are null.
\<close>

definition words_at :: "string list \<Rightarrow> nat \<Rightarrow> fault + string option" where
  "words_at words i =
     (if i < length words then Inr (Some (words ! i))
      else if i < MAX_WORDS then Inr None
      else Inl (OutOfBounds i))"

definition load :: "cell list \<Rightarrow> nat \<Rightarrow> fault + string option" where
  "load a i =
     (if i < length a then
        (case a ! i of Uninit \<Rightarrow> Inl (Uninitialised i) | Null \<Rightarrow> Inr None | Str s \<Rightarrow> Inr (Some s))
      else Inl (OutOfBounds i))"

definition store :: "cell list \<Rightarrow> nat \<Rightarrow> cell \<Rightarrow> fault + cell list" where
  "store a i v = (if i < length a then Inr (a[i := v]) else Inl (OutOfBounds i))"

definition is_redirection :: "string \<Rightarrow> bool" where
  "is_redirection w \<longleftrightarrow> w = ''>'' \<or> w = ''<'' \<or> w = ''>>''"

text \<open>The \<open>for\<close> loop of \<open>parse_command\<close>; \<open>++i; continue\<close> moves \<open>i\<close> by two.\<close>

function copy_args :: "string list \<Rightarrow> nat \<Rightarrow> nat \<Rightarrow> cell list \<Rightarrow> nat \<Rightarrow> fault + (cell list \<times> nat)" where
  "copy_args words nwords i words_argv words_argc =
     (if i < nwords then
        (case words_at words i of
           Inl f \<Rightarrow> Inl f
         | Inr None \<Rightarrow> Inl NullPointer
         | Inr (Some w) \<Rightarrow>
             if is_redirection w then copy_args words nwords (i + 2) words_argv words_argc
             else (case store words_argv words_argc (Str w) of
                     Inl f \<Rightarrow> Inl f
                   | Inr argv' \<Rightarrow> copy_args words nwords (Suc i) argv' (Suc words_argc)))
      else Inr (words_argv, words_argc))"
  by pat_completeness auto
termination
  by (relation "measure (\<lambda>(words, nwords, i, argv, argc). nwords - i)") auto

declare copy_args.simps [simp del]

text \<open>\<open>words_argc - 1\<close> in \<open>size_t\<close> arithmetic (64 bits): 0 wraps to \<open>2^64 - 1\<close>.\<close>

definition size_t_pred :: "nat \<Rightarrow> nat" where
  "size_t_pred n = (n + 2 ^ 64 - 1) mod 2 ^ 64"

text \<open>
  \<open>parse_command\<close> returns the vector, \<open>words_argc\<close> and the value it leaves in the global
  \<open>bg_flag\<close>.
\<close>

definition parse_command :: "string list \<Rightarrow> nat \<Rightarrow> cell list \<Rightarrow> fault + (cell list \<times> nat \<times> int)" where
  "parse_command words nwords words_argv =
     (case copy_args words nwords 0 words_argv 0 of
        Inl f \<Rightarrow> Inl f
      | Inr (argv, words_argc) \<Rightarrow>
          (case load argv (size_t_pred words_argc) of
             Inl f \<Rightarrow> Inl f
           | Inr None \<Rightarrow> Inl NullPointer
           | Inr (Some a) \<Rightarrow>
               if a = ''&'' then
                 (case store argv (size_t_pred words_argc) Null of
                    Inl f \<Rightarrow> Inl f
                  | Inr argv' \<Rightarrow> Inr (argv', size_t_pred words_argc, 1))
               else
                 (case store argv words_argc Null of
                    Inl f \<Rightarrow> Inl f
                  | Inr argv' \<Rightarrow> Inr (argv', words_argc, 0))))"

text \<open>The vector the main loop allocates: \<open>nwords + 1\<close> entries, none written.\<close>

definition malloc_argv :: "nat \<Rightarrow> cell list" where
  "malloc_argv nwords = replicate (nwords + 1) Uninit"


section \<open>Processes, signals and the main loop\<close>

text \<open>
  A signal disposition: the handler and the mask of a \<open>struct sigaction\<close> (the flags are
  never set). The only handler function in the program is \<open>SIGINT_handler\<close>.
\<close>

datatype sighandler = SIG_DFL | SIG_IGN | SIGINT_handler

record sigaction =
  sa_handler :: sighandler
  sa_mask :: "nat set"

datatype signal = SIGINT | SIGTSTP | SIGCONT

text \<open>
  The status word that \<open>waitpid\<close> stores is read only through the \<open>WIF...\<close> macros of the
  C library, so it is given by what the macros report: exited with a code, terminated by
  a signal, stopped by a signal, or none of these.
\<close>

datatype wait_option = WNOHANG | WUNTRACED

datatype wait_status = WExited int | WSignaled int | WStopped int | WOther

fun WIFEXITED :: "wait_status \<Rightarrow> bool" where
  "WIFEXITED (WExited n) = True"
| "WIFEXITED _ = False"

fun WEXITSTATUS :: "wait_status \<Rightarrow> int" where
  "WEXITSTATUS (WExited n) = n"
| "WEXITSTATUS _ = 0"

fun WIFSIGNALED :: "wait_status \<Rightarrow> bool" where
  "WIFSIGNALED (WSignaled s) = True"
| "WIFSIGNALED _ = False"

fun WTERMSIG :: "wait_status \<Rightarrow> int" where
  "WTERMSIG (WSignaled s) = s"
| "WTERMSIG _ = 0"

fun WIFSTOPPED :: "wait_status \<Rightarrow> bool" where
  "WIFSTOPPED (WStopped s) = True"
| "WIFSTOPPED _ = False"

text \<open>
  The process-control and file calls the interpreter makes are appended to a log, in
  order, so that statements about which calls are made can be read off the state.
\<close>

datatype open_flags = ReadOnly | WriteCreateTruncate | WriteCreateAppend

datatype syscall =
    Fork
  | Waitpid int "wait_option list"
  | Kill int signal
  | Chdir "string option"
  | Open string open_flags
  | Dup2 int int
  | Close int
  | Execv string
  | Execvp string

text \<open>
  The interpreter process: its environment, what it wrote to \<open>stderr\<close>, the globals
  \<open>bg_flag\<close>, \<open>ppgid\<close> and the four \<open>struct sigaction\<close> variables, and the attributes the
  kernel keeps for the process (its id, its process group, the dispositions of \<open>SIGINT\<close>
  and \<open>SIGTSTP\<close>). The kernel attributes change only through calls the process itself
  makes. After \<open>fork\<close> the child is a copy of this state.
\<close>

record shell =
  environ :: environ
  err :: "string list"
  bg_flag :: int
  ppgid :: int
  SIGTSTP_default :: sigaction
  SIGTSTP_action :: sigaction
  SIGINT_default :: sigaction
  SIGINT_action :: sigaction
  proc_pid :: int
  proc_pgrp :: int
  disp_SIGINT :: sigaction
  disp_SIGTSTP :: sigaction
  calls :: "syscall list"

text \<open>
  How a piece of the interpreter ends: it returns (\<open>Ok\<close>), the process calls \<open>exit\<close> or
  returns from \<open>main\<close> (\<open>Exit\<close> with the status and the final state), it runs into
  undefined behaviour (\<open>Fault\<close>), or the process image is replaced by \<open>execv\<close> or
  \<open>execvp\<close> (\<open>Exec\<close> with the state at that moment, the program and its vector).
\<close>

datatype 'a result = Ok 'a | Exit int shell | Fault fault | Exec shell string "cell list"

definition EXIT_FAILURE :: int where
  "EXIT_FAILURE = 1"

text \<open>
  \<open>sprintf(int_buf, "%d", i)\<close>: the decimal digits of \<open>i\<close>, with a minus sign when negative.
  \<open>eprint\<close> appends one piece of output to what was written to \<open>stderr\<close>; for \<open>err\<close>, \<open>errx\<close>
  and \<open>perror\<close> the piece is the message passed, without the program name and the error
  text that the library adds. The newline that \<open>SIGINT_handler\<close> prints when a signal
  arrives is not recorded.
\<close>

fun dec_nat :: "nat \<Rightarrow> string" where
  "dec_nat n = (if n < 10 then [''0123456789'' ! n] else dec_nat (n div 10) @ [''0123456789'' ! (n mod 10)])"

declare dec_nat.simps [simp del]

definition sprintf_d :: "int \<Rightarrow> string" where
  "sprintf_d i = (if i < 0 then CHR ''-'' # dec_nat (nat (- i)) else dec_nat (nat i))"

definition eprint :: "string \<Rightarrow> shell \<Rightarrow> shell" where
  "eprint s st = st\<lparr>err := err st @ [s]\<rparr>"

definition setenv :: "string \<Rightarrow> string \<Rightarrow> shell \<Rightarrow> shell" where
  "setenv name val st = st\<lparr>environ := (environ st)(name \<mapsto> val)\<rparr>"

definition getenv :: "shell \<Rightarrow> string \<Rightarrow> string option" where
  "getenv st name = environ st name"

definition syscall :: "syscall \<Rightarrow> shell \<Rightarrow> shell" where
  "syscall c st = st\<lparr>calls := calls st @ [c]\<rparr>"

definition getpgrp :: "shell \<Rightarrow> int" where
  "getpgrp st = proc_pgrp st"

definition getpid :: "shell \<Rightarrow> int" where
  "getpid st = proc_pid st"

text \<open>
  \<open>sigaction(sig, act, oldact)\<close>: returns the disposition in force and installs \<open>act\<close> when
  it is not null.
\<close>

definition sigaction :: "signal \<Rightarrow> sigaction option \<Rightarrow> shell \<Rightarrow> sigaction \<times> shell" where
  "sigaction sig act st =
     (case sig of
        SIGINT \<Rightarrow> (disp_SIGINT st, case act of None \<Rightarrow> st | Some a \<Rightarrow> st\<lparr>disp_SIGINT := a\<rparr>)
      | SIGTSTP \<Rightarrow> (disp_SIGTSTP st, case act of None \<Rightarrow> st | Some a \<Rightarrow> st\<lparr>disp_SIGTSTP := a\<rparr>)
      | SIGCONT \<Rightarrow> (\<lparr>sa_handler = SIG_DFL, sa_mask = {}\<rparr>, st))"

definition SIGTSTP_setup :: "shell \<Rightarrow> shell" where
  "SIGTSTP_setup st =
     (let (old, st) = sigaction SIGTSTP None st;
          st = st\<lparr>SIGTSTP_default := old\<rparr>;
          st = st\<lparr>SIGTSTP_action := (SIGTSTP_action st)\<lparr>sa_handler := SIG_IGN\<rparr>\<rparr>;
          st = st\<lparr>SIGTSTP_action := (SIGTSTP_action st)\<lparr>sa_mask := UNIV\<rparr>\<rparr>;
          (old, st) = sigaction SIGTSTP (Some (SIGTSTP_action st)) st
      in st\<lparr>SIGTSTP_default := old\<rparr>)"

definition SIGINT_setup :: "shell \<Rightarrow> shell" where
  "SIGINT_setup st =
     (let (old, st) = sigaction SIGINT None st;
          st = st\<lparr>SIGINT_default := old\<rparr>;
          st = st\<lparr>SIGINT_action := (SIGINT_action st)\<lparr>sa_handler := SIGINT_handler\<rparr>\<rparr>;
          st = st\<lparr>SIGINT_action := (SIGINT_action st)\<lparr>sa_mask := UNIV\<rparr>\<rparr>;
          (old, st) = sigaction SIGINT (Some (SIGINT_action st)) st
      in st\<lparr>SIGINT_default := old\<rparr>)"

definition print_prompt :: "shell \<Rightarrow> shell" where
  "print_prompt st = (case getenv st ''PS1'' of None \<Rightarrow> eprint '''' st | Some ps1 \<Rightarrow> eprint ps1 st)"


text \<open>
  What the operating system answers during one pass of the main loop, from a label to
  the end of the command read there: whether reopening the script fails, the children
  \<open>waitpid(-1)\<close> reports to the reaper (process id, status, and the result of the
  \<open>kill\<close> sent if it is stopped), the outcome of \<open>getline\<close>, and the results of \<open>fork\<close>,
  of the parent's \<open>waitpid\<close>, of \<open>kill\<close>, \<open>chdir\<close>, \<open>open\<close>, \<open>dup2\<close> and \<open>exec\<close>. A pass
  in which \<open>fork\<close> answers 0 is the pass as the child lives it.
\<close>

datatype getline_result = Line string | EOF | EINTR | ReadError

record os =
  fopen_fails :: bool
  reaped :: "(int \<times> wait_status \<times> int) list"
  getline :: getline_result
  fork_ret :: int
  wait_ret :: int
  wait_stat :: wait_status
  kill_ret :: int
  chdir_ret :: int
  open_ret :: "string \<Rightarrow> int"
  dup2_ret :: int
  exec_fails :: bool

text \<open>
  \<open>strtol(s, &endptr, 0)\<close> of the C library is a parameter: it maps a string to the value
  and the offset of \<open>endptr\<close>. \<open>int_of_long\<close> is the conversion of the \<open>long\<close> to \<open>int\<close>.
\<close>

type_synonym strtol_fn = "string \<Rightarrow> int \<times> nat"

definition int_of_long :: "int \<Rightarrow> int" where
  "int_of_long v = (v + 2 ^ 31) mod 2 ^ 32 - 2 ^ 31"

definition and_then :: "'a result \<Rightarrow> ('a \<Rightarrow> 'b result) \<Rightarrow> 'b result" where
  "and_then r f =
     (case r of Ok x \<Rightarrow> f x | Exit c st \<Rightarrow> Exit c st | Fault e \<Rightarrow> Fault e | Exec st p a \<Rightarrow> Exec st p a)"

definition builtin_cd :: "os \<Rightarrow> cell list \<Rightarrow> nat \<Rightarrow> shell \<Rightarrow> shell result" where
  "builtin_cd os argv argc st =
     (if argc = 1 then
        (case getenv st ''HOME'' of
           Some home \<Rightarrow> Ok (syscall (Chdir (Some home)) st)
         | None \<Rightarrow> Ok (setenv ''?'' ''1'' (eprint (''smallsh: cd: HOME not set'' @ NL) st)))
      else if argc > 2 then
        Ok (setenv ''?'' ''1'' (eprint (''smallsh: cd: too many arguments'' @ NL) st))
      else
        (case load argv 1 of
           Inl f \<Rightarrow> Fault f
         | Inr dir \<Rightarrow>
             let st = syscall (Chdir dir) st in
             if chdir_ret os \<noteq> 0 then Ok (setenv ''?'' ''1'' (eprint (''smalssh: chdir failed'' @ NL) st))
             else Ok st))"

definition builtin_exit :: "strtol_fn \<Rightarrow> cell list \<Rightarrow> nat \<Rightarrow> shell \<Rightarrow> shell result" where
  "builtin_exit strtol argv argc st =
     (let st = (if argc > 2
                then setenv ''?'' ''1'' (eprint (''smallsh: exit: too many arguments'' @ NL) st)
                else st)
      in if argc = 2 then
           (case load argv 1 of
              Inl f \<Rightarrow> Fault f
            | Inr None \<Rightarrow> Fault NullPointer
            | Inr (Some a) \<Rightarrow>
                let (v, endptr) = strtol a;
                    exit_code = int_of_long v;
                    st = (if peek a endptr \<noteq> NUL
                          then setenv ''?'' ''1''
                                 (eprint (''smallsh: exit: '' @ a @ '': integer argument required'' @ NL) st)
                          else st)
                in Exit exit_code st)
         else
           (case getenv st ''?'' of
              None \<Rightarrow> Exit 0 st
            | Some status \<Rightarrow> Exit (int_of_long (fst (strtol status))) st))"

text \<open>
  The child: one branch of its loop over \<open>words\<close> for the redirections, the loop, the
  two \<open>sigaction\<close> calls that come first (\<open>restore_defaults\<close>), and the \<open>execv\<close> or
  \<open>execvp\<close> that comes last (\<open>exec_program\<close>).
\<close>

definition redirect :: "os \<Rightarrow> string list \<Rightarrow> nat \<Rightarrow> open_flags \<Rightarrow> int \<Rightarrow> string \<Rightarrow> shell \<Rightarrow> shell result" where
  "redirect os words i flags target msg st =
     (case words_at words (i + 1) of
        Inl f \<Rightarrow> Fault f
      | Inr None \<Rightarrow> Exit 1 (eprint ''no file for redirection output'' st)
      | Inr (Some path) \<Rightarrow>
          let fd = open_ret os path;
              st = syscall (Open path flags) st
          in if fd < 0 then Exit 1 (eprint msg st)
             else let st = syscall (Dup2 fd target) st
                  in if dup2_ret os < 0 then Exit 1 (eprint ''dup2'' st)
                     else Ok (syscall (Close fd) st))"

function redirect_loop :: "os \<Rightarrow> string list \<Rightarrow> nat \<Rightarrow> shell \<Rightarrow> shell result" where
  "redirect_loop os words i st =
     (case words_at words i of
        Inl f \<Rightarrow> Fault f
      | Inr None \<Rightarrow> Ok st
      | Inr (Some w) \<Rightarrow>
          (case (if w = ''>'' then
                   redirect os words i WriteCreateTruncate 1 ''open file for redirection output'' st
                 else if w = ''<'' then
                   redirect os words i ReadOnly 0 ''open file for redirection input'' st
                 else if w = ''>>'' then
                   redirect os words i WriteCreateAppend 1 ''open file for redirection output append'' st
                 else Ok st) of
             Ok st' \<Rightarrow> redirect_loop os words (Suc i) st'
           | Exit c st' \<Rightarrow> Exit c st'
           | Fault f \<Rightarrow> Fault f
           | Exec st' p a \<Rightarrow> Exec st' p a))"
  by pat_completeness auto
termination
  by (relation "measure (\<lambda>(os, words, i, st). length words - i)")
     (auto simp: words_at_def split: if_splits)

declare redirect_loop.simps [simp del]

definition restore_defaults :: "shell \<Rightarrow> shell" where
  "restore_defaults st =
     (let st = snd (sigaction SIGINT (Some (SIGINT_default st)) st)
      in snd (sigaction SIGTSTP (Some (SIGTSTP_default st)) st))"

definition exec_program :: "os \<Rightarrow> cell list \<Rightarrow> shell \<Rightarrow> shell result" where
  "exec_program os words_argv st =
     (case load words_argv 0 of
        Inl f \<Rightarrow> Fault f
      | Inr None \<Rightarrow> Fault NullPointer
      | Inr (Some a0) \<Rightarrow>
          if CHR ''/'' \<in> set a0 then
            (let st = syscall (Execv a0) st
             in if exec_fails os then Exit EXIT_FAILURE (eprint ''execv'' st)
                else Exec st a0 words_argv)
          else
            (let st = syscall (Execvp a0) st
             in if exec_fails os then Exit EXIT_FAILURE (eprint ''execvp'' st)
                else Exec st a0 words_argv))"

definition child :: "os \<Rightarrow> string list \<Rightarrow> cell list \<Rightarrow> shell \<Rightarrow> shell result" where
  "child os words words_argv st =
     and_then (redirect_loop os words 0 (restore_defaults st)) (exec_program os words_argv)"

definition parent :: "os \<Rightarrow> int \<Rightarrow> shell \<Rightarrow> shell result" where
  "parent os pid st =
     (if bg_flag st \<noteq> 0 then
        (let st = syscall (Waitpid pid [WNOHANG, WUNTRACED]) st
         in Ok (setenv ''!'' (sprintf_d pid) st))
      else
        (let st = syscall (Waitpid pid [WUNTRACED]) st;
             pid = wait_ret os;
             status = wait_stat os
         in if WIFSIGNALED status then
              Ok (setenv ''?'' (sprintf_d (128 + WTERMSIG status)) st)
            else if WIFSTOPPED status then
              (let st = eprint (''Child process '' @ sprintf_d pid @ '' stopped. Continuing.'' @ NL) st;
                   st = syscall (Kill pid SIGCONT) st
               in if kill_ret os < 0 then Exit EXIT_FAILURE (eprint ''kill'' st)
                  else Ok (setenv ''!'' (sprintf_d pid) st))
            else if WIFEXITED status then
              Ok (setenv ''?'' (sprintf_d (WEXITSTATUS status)) st)
            else Ok st))"

definition execute_nonbuiltin_cmds :: "os \<Rightarrow> string list \<Rightarrow> cell list \<Rightarrow> shell \<Rightarrow> shell result" where
  "execute_nonbuiltin_cmds os words words_argv st =
     (let pid = fork_ret os;
          st = syscall Fork st
      in if pid = - 1 then
           (case load words_argv 0 of
              Inl f \<Rightarrow> Fault f
            | Inr None \<Rightarrow> Fault NullPointer
            | Inr (Some a0) \<Rightarrow> Exit EXIT_FAILURE (eprint (''Fork: '' @ a0) st))
         else if pid = 0 then child os words words_argv st
         else parent os pid st)"

definition execute_cmds :: "strtol_fn \<Rightarrow> os \<Rightarrow> string list \<Rightarrow> cell list \<Rightarrow> nat \<Rightarrow> shell \<Rightarrow> shell result" where
  "execute_cmds strtol os words words_argv words_argc st =
     (case load words_argv 0 of
        Inl f \<Rightarrow> Fault f
      | Inr None \<Rightarrow> Fault NullPointer
      | Inr (Some a0) \<Rightarrow>
          if a0 = ''cd'' then builtin_cd os words_argv words_argc st
          else (case words_at words 0 of
                  Inl f \<Rightarrow> Fault f
                | Inr None \<Rightarrow> Fault NullPointer
                | Inr (Some w0) \<Rightarrow>
                    if w0 = ''exit'' then builtin_exit strtol words_argv words_argc st
                    else execute_nonbuiltin_cmds os words words_argv st))"

text \<open>
  The reaper. The list holds what successive calls of \<open>waitpid(-1, ...)\<close> report; the loop
  ends at the first result that is not positive, or when nothing is left to report.
\<close>

fun bg_handler :: "(int \<times> wait_status \<times> int) list \<Rightarrow> shell \<Rightarrow> shell result" where
  "bg_handler [] st = Ok (syscall (Waitpid (- 1) [WNOHANG, WUNTRACED]) st)"
| "bg_handler ((pid, status, killed) # rest) st =
     (let st = syscall (Waitpid (- 1) [WNOHANG, WUNTRACED]) st
      in if pid > 0 then
           (let pgid = getpgrp st
            in if pgid = ppgid st then
                 (if WIFEXITED status then
                    bg_handler rest
                      (eprint (''Child process '' @ sprintf_d pid @ '' done. Exit status ''
                                 @ sprintf_d (WEXITSTATUS status) @ ''.'' @ NL) st)
                  else if WIFSIGNALED status then
                    bg_handler rest
                      (eprint (''Child process '' @ sprintf_d pid @ '' done. Signaled ''
                                 @ sprintf_d (WTERMSIG status) @ ''.'' @ NL) st)
                  else if WIFSTOPPED status then
                    (let st = syscall (Kill pid SIGCONT) st
                     in if killed < 0 then Exit EXIT_FAILURE (eprint ''kill'' st)
                        else bg_handler rest
                               (eprint (''Child process '' @ sprintf_d pid @ '' stopped. Continuing.'' @ NL) st))
                  else bg_handler rest st)
               else bg_handler rest st)
         else Ok st)"

text \<open>
  The main function, cut at its three labels: \<open>smallsh\<close> (start, and target of the
  \<open>goto\<close> after an interrupted read), the top of the \<open>for\<close> loop, and \<open>prompt\<close>. One pass
  runs from a label through the reaper, the read of one line and the command on it, and
  ends at the label where the program continues. \<open>cstr\<close> is the C string held in a word
  buffer; \<open>ignore_SIGINT\<close> is the pair of statements after the read; \<open>process_line\<close> is the
  rest of the loop body, from word splitting to execution.
\<close>

datatype label = smallsh | loop_top | prompt

definition cstr :: "string \<Rightarrow> string" where
  "cstr buf = takeWhile (\<lambda>c. c \<noteq> NUL) buf"

definition expand_words :: "environ \<Rightarrow> string list \<Rightarrow> string list option" where
  "expand_words e raw = those (map (\<lambda>w. expand e (cstr w)) raw)"

definition enter_smallsh :: "nat \<Rightarrow> os \<Rightarrow> shell \<Rightarrow> shell result" where
  "enter_smallsh argc os st =
     (if argc = 2 \<and> fopen_fails os then Exit 1 (eprint ''fopen'' st)
      else if argc > 2 then Exit 1 (eprint ''too many arguments'' st)
      else Ok (setenv ''!'' [] (setenv ''?'' ''0'' (setenv ''$'' (sprintf_d (getpid st))
                 (st\<lparr>ppgid := getpgrp st\<rparr>)))))"

definition at_label :: "nat \<Rightarrow> os \<Rightarrow> label \<Rightarrow> shell \<Rightarrow> shell result" where
  "at_label argc os l st =
     (case l of
        smallsh \<Rightarrow> and_then (enter_smallsh argc os st) (\<lambda>st. Ok (SIGINT_setup (SIGTSTP_setup st)))
      | loop_top \<Rightarrow> Ok (SIGINT_setup (SIGTSTP_setup st))
      | prompt \<Rightarrow> Ok st)"

definition ignore_SIGINT :: "shell \<Rightarrow> shell" where
  "ignore_SIGINT st =
     (let st = st\<lparr>SIGINT_action := (SIGINT_action st)\<lparr>sa_handler := SIG_IGN\<rparr>\<rparr>
      in snd (sigaction SIGINT (Some (SIGINT_action st)) st))"

definition process_line :: "strtol_fn \<Rightarrow> os \<Rightarrow> string \<Rightarrow> shell \<Rightarrow> (label \<times> shell) result" where
  "process_line strtol os line st =
     (case wordsplit line of
        Inl f \<Rightarrow> Fault f
      | Inr raw \<Rightarrow>
          let nwords = length raw in
          if nwords = 0 then Ok (prompt, st)
          else
            (case expand_words (environ st) raw of
               None \<Rightarrow> Fault NullPointer
             | Some words \<Rightarrow>
                 (case parse_command words nwords (malloc_argv nwords) of
                    Inl f \<Rightarrow> Fault f
                  | Inr (words_argv, words_argc, flag) \<Rightarrow>
                      and_then (execute_cmds strtol os words words_argv words_argc (st\<lparr>bg_flag := flag\<rparr>))
                        (\<lambda>st. Ok (loop_top, st)))))"

definition at_prompt :: "nat \<Rightarrow> strtol_fn \<Rightarrow> os \<Rightarrow> shell \<Rightarrow> (label \<times> shell) result" where
  "at_prompt argc strtol os st =
     and_then (bg_handler (reaped os) st) (\<lambda>st.
       let st = (if argc \<noteq> 2 then print_prompt st else st) in
       case getline os of
         EOF \<Rightarrow> Exit 0 st
       | EINTR \<Rightarrow> Ok (smallsh, st)
       | ReadError \<Rightarrow> Exit 1 (eprint ''getline'' st)
       | Line line \<Rightarrow> process_line strtol os line (ignore_SIGINT st))"

definition main_pass :: "nat \<Rightarrow> strtol_fn \<Rightarrow> os \<Rightarrow> label \<Rightarrow> shell \<Rightarrow> (label \<times> shell) result" where
  "main_pass argc strtol os l st = and_then (at_label argc os l st) (at_prompt argc strtol os)"

fun run :: "nat \<Rightarrow> strtol_fn \<Rightarrow> os list \<Rightarrow> label \<Rightarrow> shell \<Rightarrow> (label \<times> shell) result" where
  "run argc strtol [] l st = Ok (l, st)"
| "run argc strtol (os # rest) l st =
     and_then (main_pass argc strtol os l st) (\<lambda>(l', st'). run argc strtol rest l' st')"


text \<open>
  A concrete start state (default dispositions, empty environment, process 500 leading its
  own group) and concrete answers of the operating system (the line \<open>ls\<close>, a child with
  id 501 that exits with code 0), used where a statement is evaluated on an input.
\<close>

definition boot :: shell where
  "boot =
     \<lparr>environ = Map.empty, err = [], bg_flag = 0, ppgid = 0,
      SIGTSTP_default = \<lparr>sa_handler = SIG_DFL, sa_mask = {}\<rparr>,
      SIGTSTP_action = \<lparr>sa_handler = SIG_DFL, sa_mask = {}\<rparr>,
      SIGINT_default = \<lparr>sa_handler = SIG_DFL, sa_mask = {}\<rparr>,
      SIGINT_action = \<lparr>sa_handler = SIG_DFL, sa_mask = {}\<rparr>,
      proc_pid = 500, proc_pgrp = 500,
      disp_SIGINT = \<lparr>sa_handler = SIG_DFL, sa_mask = {}\<rparr>,
      disp_SIGTSTP = \<lparr>sa_handler = SIG_DFL, sa_mask = {}\<rparr>,
      calls = []\<rparr>"

definition reply :: os where
  "reply =
     \<lparr>fopen_fails = False, reaped = [], getline = Line ''ls'', fork_ret = 501, wait_ret = 501,
      wait_stat = WExited 0, kill_ret = 0, chdir_ret = 0, open_ret = (\<lambda>p. 3), dup2_ret = 0,
      exec_fails = False\<rparr>"

section \<open>Properties of the tokenizer\<close>

text \<open>
  Vocabulary for statements about a single word of input: a word is a sequence of items,
  each either a plain byte or a backslash followed by the byte it escapes.
  \<open>source_text\<close> is what the user types, \<open>literal\<close> the byte an item stands for.
\<close>

datatype item = Plain char | Esc char

fun render :: "item \<Rightarrow> string" where
  "render (Plain c) = [c]"
| "render (Esc c) = [BACKSLASH, c]"

fun literal :: "item \<Rightarrow> char" where
  "literal (Plain c) = c"
| "literal (Esc c) = c"

fun item_ok :: "item \<Rightarrow> bool" where
  "item_ok (Plain c) \<longleftrightarrow> c \<noteq> NUL \<and> \<not> isspace c \<and> c \<noteq> BACKSLASH"
| "item_ok (Esc c) \<longleftrightarrow> c \<noteq> NUL"

definition source_text :: "item list \<Rightarrow> string" where
  "source_text items = concat (map render items)"

lemma deref_append_here [simp]: "deref (pre @ x # rest) (length pre) = Inr x"
  by (simp add: deref_def)

lemma deref_append_end [simp]: "deref pre (length pre) = Inr NUL"
  by (simp add: deref_def)

lemma isspace_NUL [simp]: "\<not> isspace NUL"
  by (simp add: isspace_def)

lemma isspace_BACKSLASH [simp]: "\<not> isspace BACKSLASH"
  by (simp add: isspace_def)

lemma read_word_stops:
  assumes "rest = [] \<or> isspace (hd rest) \<or> hd rest = NUL"
  shows "read_word (pre @ rest) (length pre) w = Inr (length pre, w)"
proof (cases rest)
  case Nil
  then show ?thesis by (subst read_word.simps) simp
next
  case (Cons x xs)
  with assms show ?thesis by (subst read_word.simps) auto
qed

lemma read_word_items:
  assumes "\<forall>it \<in> set items. item_ok it" "rest = [] \<or> isspace (hd rest) \<or> hd rest = NUL"
  shows "read_word (pre @ source_text items @ rest) (length pre) w =
         Inr (length pre + length (source_text items), w @ map literal items)"
  using assms(1)
proof (induction items arbitrary: pre w)
  case Nil
  show ?case using read_word_stops [OF assms(2)] by (simp add: source_text_def)
next
  case (Cons it items)
  then have ok: "item_ok it" and oks: "\<forall>it \<in> set items. item_ok it" by simp_all
  show ?case
  proof (cases it)
    case (Plain c)
    have "read_word (pre @ source_text (it # items) @ rest) (length pre) w =
          read_word ((pre @ [c]) @ source_text items @ rest) (length (pre @ [c])) (w @ [c])"
      using ok Plain by (subst read_word.simps) (simp add: source_text_def)
    also have "\<dots> = Inr (length (pre @ [c]) + length (source_text items), (w @ [c]) @ map literal items)"
      by (rule Cons.IH [OF oks])
    finally show ?thesis using Plain by (simp add: source_text_def)
  next
    case (Esc c)
    have d: "deref (pre @ BACKSLASH # c # source_text items @ rest) (Suc (length pre)) = Inr c"
      using deref_append_here [of "pre @ [BACKSLASH]" c "source_text items @ rest"] by simp
    have "read_word (pre @ source_text (it # items) @ rest) (length pre) w =
          read_word ((pre @ [BACKSLASH, c]) @ source_text items @ rest) (length (pre @ [BACKSLASH, c])) (w @ [c])"
      using ok Esc d by (subst read_word.simps) (simp add: source_text_def)
    also have "\<dots> = Inr (length (pre @ [BACKSLASH, c]) + length (source_text items), (w @ [c]) @ map literal items)"
      by (rule Cons.IH [OF oks])
    finally show ?thesis using Esc by (simp add: source_text_def)
  qed
qed

lemma skip_space_run:
  assumes "\<forall>c \<in> set sp. isspace c" "rest = [] \<or> \<not> isspace (hd rest)"
  shows "skip_space (pre @ sp @ rest) (length pre) = Inr (length pre + length sp)"
  using assms(1)
proof (induction sp arbitrary: pre)
  case Nil
  show ?case
  proof (cases rest)
    case Nil
    then show ?thesis by (subst skip_space.simps) simp
  next
    case (Cons x xs)
    with assms(2) show ?thesis by (subst skip_space.simps) simp
  qed
next
  case (Cons s sp)
  then have s: "isspace s" and sp: "\<forall>c \<in> set sp. isspace c" by simp_all
  from s have "s \<noteq> NUL" by (auto simp: isspace_def)
  then have "skip_space (pre @ (s # sp) @ rest) (length pre) =
        skip_space ((pre @ [s]) @ sp @ rest) (length (pre @ [s]))"
    using s by (subst skip_space.simps) simp
  also have "\<dots> = Inr (length (pre @ [s]) + length sp)"
    by (rule Cons.IH [OF sp])
  finally show ?case by simp
qed

lemma split_loop_end: "split_loop line (length line) ws = Inr ws"
  by (subst split_loop.simps) simp

text \<open>
  Claim C7. A line that holds a single word (optionally surrounded by whitespace, as the
  newline left by \<open>getline\<close>) in which a whitespace byte \<open>s\<close> is preceded by a
  backslash is split into exactly one token; the token is the word with every escaping
  backslash dropped, so it contains the literal byte \<open>s\<close>. The word does not start with
  an unescaped \<open>#\<close> (that would be a comment) and no escape is cut off by the end of
  the line.
\<close>

theorem wordsplit_escaped_word:
  assumes ok: "\<forall>it \<in> set items. item_ok it"
    and ne: "items \<noteq> []"
    and nc: "hd items \<noteq> Plain (CHR ''#'')"
    and lead: "\<forall>c \<in> set lead. isspace c"
    and trail: "\<forall>c \<in> set trail. isspace c"
    and esc: "Esc s \<in> set items" "isspace s"
  shows "wordsplit (lead @ source_text items @ trail) = Inr [map literal items]
         \<and> s \<in> set (map literal items)"
proof -
  let ?line = "lead @ source_text items @ trail"
  obtain it its where items: "items = it # its" using ne by (cases items) auto
  obtain x xs where st: "source_text items = x # xs" and x: "x \<noteq> NUL" "\<not> isspace x" "x \<noteq> CHR ''#''"
    using ok nc items by (cases it) (auto simp: source_text_def)
  have s0: "skip_space ?line 0 = Inr (length lead)"
    using skip_space_run [of lead "source_text items @ trail" "[]"] lead st x by simp
  have tr: "trail = [] \<or> isspace (hd trail) \<or> hd trail = NUL"
    using trail by (cases trail) auto
  have rw: "read_word ?line (length lead) [] = Inr (length lead + length (source_text items), map literal items)"
    using read_word_items [OF ok tr, of lead "[]"] by simp
  have s1: "skip_space ?line (length lead + length (source_text items)) = Inr (length ?line)"
    using skip_space_run [of trail "[]" "lead @ source_text items"] trail by simp
  have fin: "split_loop ?line (length ?line) [map literal items] = Inr [map literal items]"
    by (rule split_loop_end)
  have d: "deref ?line (length lead) = Inr x"
    using st by simp
  have "split_loop ?line (length lead) [] = Inr [map literal items]"
    using d x rw s1 fin by (subst split_loop.simps) (simp add: MAX_WORDS_def)
  with s0 have "wordsplit ?line = Inr [map literal items]"
    by (simp add: wordsplit_def)
  moreover from esc(1) have "s \<in> set (map literal items)"
    by (force simp: image_iff)
  ultimately show ?thesis by simp
qed

theorem wordsplit_escaped_word_witness:
  "wordsplit [CHR ''a'', BACKSLASH, CHR '' '', CHR ''b'', CHR 0x0A] = Inr [''a b'']
   \<and> CHR '' '' \<in> set ''a b''"
  using wordsplit_escaped_word [of "[Plain (CHR ''a''), Esc (CHR '' ''), Plain (CHR ''b'')]" "[]" "[CHR 0x0A]" "CHR '' ''"]
  by (simp add: source_text_def isspace_def)


lemma read_word_items_run:
  assumes "\<forall>it \<in> set items. item_ok it"
  shows "read_word (pre @ source_text items @ rest) (length pre) w =
         read_word (pre @ source_text items @ rest) (length pre + length (source_text items))
           (w @ map literal items)"
  using assms
proof (induction items arbitrary: pre w)
  case Nil
  show ?case by (simp add: source_text_def)
next
  case (Cons it items)
  then have ok: "item_ok it" and oks: "\<forall>it \<in> set items. item_ok it" by simp_all
  let ?line = "pre @ source_text (it # items) @ rest"
  show ?case
  proof (cases it)
    case (Plain c)
    have l: "?line = (pre @ [c]) @ source_text items @ rest"
      using Plain by (simp add: source_text_def)
    have "read_word ?line (length pre) w = read_word ?line (length (pre @ [c])) (w @ [c])"
      using ok Plain by (subst read_word.simps) (simp add: source_text_def)
    also have "\<dots> = read_word ?line (length (pre @ [c]) + length (source_text items)) ((w @ [c]) @ map literal items)"
      unfolding l by (rule Cons.IH [OF oks])
    finally show ?thesis using Plain by (simp add: source_text_def)
  next
    case (Esc c)
    have l: "?line = (pre @ [BACKSLASH, c]) @ source_text items @ rest"
      using Esc by (simp add: source_text_def)
    have d: "deref (pre @ BACKSLASH # c # source_text items @ rest) (Suc (length pre)) = Inr c"
      using deref_append_here [of "pre @ [BACKSLASH]" c "source_text items @ rest"] by simp
    have "read_word ?line (length pre) w = read_word ?line (length (pre @ [BACKSLASH, c])) (w @ [c])"
      using ok Esc d by (subst read_word.simps) (simp add: source_text_def)
    also have "\<dots> = read_word ?line (length (pre @ [BACKSLASH, c]) + length (source_text items)) ((w @ [c]) @ map literal items)"
      unfolding l by (rule Cons.IH [OF oks])
    finally show ?thesis using Esc by (simp add: source_text_def)
  qed
qed

lemma read_word_final_backslash:
  "read_word (front @ [BACKSLASH]) (length front) w = Inl (OutOfBounds (length front + 2))"
proof -
  have d1: "deref (front @ [BACKSLASH]) (Suc (length front)) = Inr NUL"
    using deref_append_end [of "front @ [BACKSLASH]"] by simp
  have d2: "deref (front @ [BACKSLASH]) (Suc (Suc (length front))) = Inl (OutOfBounds (length front + 2))"
    by (simp add: deref_def)
  have r: "read_word (front @ [BACKSLASH]) (Suc (Suc (length front))) (w @ [NUL]) =
           Inl (OutOfBounds (length front + 2))"
    by (subst read_word.simps) (simp add: d2)
  show ?thesis
    by (subst read_word.simps) (simp add: d1 r)
qed

lemma wordsplit_final_backslash:
  assumes ok: "\<forall>it \<in> set items. item_ok it"
    and nc: "items \<noteq> [] \<longrightarrow> hd items \<noteq> Plain (CHR ''#'')"
    and lead: "\<forall>c \<in> set lead. isspace c"
  shows "wordsplit (lead @ source_text items @ [BACKSLASH]) =
         Inl (OutOfBounds (length lead + length (source_text items) + 2))"
proof -
  let ?line = "lead @ source_text items @ [BACKSLASH]"
  obtain x xs where st: "source_text items @ [BACKSLASH] = x # xs"
    and x: "x \<noteq> NUL" "\<not> isspace x" "x \<noteq> CHR ''#''"
  proof (cases items)
    case Nil
    then show ?thesis using that [of BACKSLASH "[]"] by (simp add: source_text_def)
  next
    case (Cons it its)
    with ok nc show ?thesis using that
      by (cases it) (auto simp: source_text_def)
  qed
  have s0: "skip_space ?line 0 = Inr (length lead)"
    using skip_space_run [of lead "source_text items @ [BACKSLASH]" "[]"] lead st x by simp
  have "read_word ?line (length lead) [] =
        read_word ?line (length lead + length (source_text items)) (map literal items)"
    using read_word_items_run [OF ok, of lead "[BACKSLASH]" "[]"] by simp
  also have "\<dots> = Inl (OutOfBounds (length lead + length (source_text items) + 2))"
    using read_word_final_backslash [of "lead @ source_text items" "map literal items"] by simp
  finally have rw: "read_word ?line (length lead) [] =
        Inl (OutOfBounds (length lead + length (source_text items) + 2))" .
  have d: "deref ?line (length lead) = Inr x"
    using st deref_append_here [of lead x xs] by simp
  have "split_loop ?line (length lead) [] = Inl (OutOfBounds (length lead + length (source_text items) + 2))"
    using d x rw by (subst split_loop.simps) (simp add: MAX_WORDS_def)
  with s0 show ?thesis by (simp add: wordsplit_def)
qed

text \<open>
  Claim C10. The claim says that the scan never moves past the terminating NUL. It fails
  for a line whose last byte is a backslash: the escape step \<open>++c\<close> puts \<open>c\<close> on the
  terminator, the terminator is copied into the word, and the loop's own \<open>++c\<close> then
  moves to offset \<open>length line + 1\<close>, which the loop condition reads. For the two-byte
  line \<open>a\\<close> the read is at offset 3. The same happens for every line whose last word
  ends in an unescaped backslash (\<open>wordsplit_final_backslash\<close> above).
\<close>

theorem wordsplit_trailing_backslash_overrun:
  "wordsplit [CHR ''a'', BACKSLASH] = Inl (OutOfBounds 3)"
  by (simp add: wordsplit_def skip_space.simps read_word.simps split_loop.simps deref_def
      isspace_def MAX_WORDS_def)

section \<open>Properties of the expander\<close>

lemma strchr_here: "s < length str \<Longrightarrow> str ! s = ch \<Longrightarrow> strchr str s ch = Some s"
  by (simp add: strchr_def Cons_nth_drop_Suc [symmetric])

lemma strchr_skip: "s < length str \<Longrightarrow> str ! s \<noteq> ch \<Longrightarrow> strchr str s ch = strchr str (Suc s) ch"
  by (simp add: strchr_def Cons_nth_drop_Suc [symmetric])

lemma strchr_past: "length str \<le> s \<Longrightarrow> strchr str s ch = None"
  by (simp add: strchr_def)

lemma strchr_shift:
  "strchr (pre @ w) (length pre + s) ch = map_option (\<lambda>i. length pre + i) (strchr w s ch)"
  by (simp add: strchr_def)

lemma peek_shift: "peek (pre @ w) (length pre + i) = peek w i"
  by (simp add: peek_def)

text \<open>Auxiliary notions for the proofs: a scan result moved by a prefix, and whether a
  reference starts at an offset.\<close>

fun shift :: "nat \<Rightarrow> scan \<Rightarrow> scan" where
  "shift n NoParam = NoParam"
| "shift n (Param c s e) = Param c (n + s) (n + e)"

lemma param_scan_shift:
  "param_scan (pre @ w) (length pre + s) = shift (length pre) (param_scan w s)"
proof (induction w s rule: param_scan.induct)
  case (1 word s)
  show ?case
  proof (cases "s < length word")
    case False
    then show ?thesis
      by (subst param_scan.simps, subst (2) param_scan.simps) simp
  next
    case lt: True
    show ?thesis
    proof (cases "strchr word s (CHR ''$'')")
      case None
      with lt show ?thesis
        by (subst param_scan.simps, subst (2) param_scan.simps) (simp add: strchr_shift)
    next
      case (Some s')
      define n where "n = peek word (Suc s')"
      have pk: "peek (pre @ word) (Suc (length pre + s')) = n"
        using peek_shift [of pre word "Suc s'"] by (simp add: n_def)
      have sc: "strchr (pre @ word) (length pre + s) (CHR ''$'') = Some (length pre + s')"
        by (simp add: strchr_shift Some)
      have sb: "strchr (pre @ word) (Suc (Suc (length pre + s'))) (CHR ''}'') =
                map_option (\<lambda>i. length pre + i) (strchr word (Suc (Suc s')) (CHR ''}''))"
        using strchr_shift [of pre word "Suc (Suc s')"] by simp
      show ?thesis
      proof (cases "n = CHR ''$'' \<or> n = CHR ''!'' \<or> n = CHR ''?''")
        case True
        with lt Some sc pk show ?thesis
          by (subst param_scan.simps, subst (2) param_scan.simps) (simp add: n_def [symmetric])
      next
        case nsp: False
        show ?thesis
        proof (cases "n = CHR ''{''")
          case br: True
          show ?thesis
          proof (cases "strchr word (s' + 2) (CHR ''}'')")
            case None
            from "1.IH"(1) [OF lt Some n_def nsp br None]
            have "param_scan (pre @ word) (length pre + Suc s') = shift (length pre) (param_scan word (Suc s'))" .
            with lt Some sc pk sb nsp br None show ?thesis
              by (subst param_scan.simps, subst (2) param_scan.simps) (simp add: n_def [symmetric])
          next
            case (Some e)
            with lt \<open>strchr word s (CHR ''$'') = Some s'\<close> sc pk sb nsp br show ?thesis
              by (subst param_scan.simps, subst (2) param_scan.simps) (simp add: n_def [symmetric])
          qed
        next
          case nbr: False
          from "1.IH"(2) [OF lt Some n_def nsp nbr]
          have "param_scan (pre @ word) (length pre + Suc s') = shift (length pre) (param_scan word (Suc s'))" .
          with lt Some sc pk nsp nbr show ?thesis
            by (subst param_scan.simps, subst (2) param_scan.simps) (simp add: n_def [symmetric])
        qed
      qed
    qed
  qed
qed


definition match_at :: "string \<Rightarrow> nat \<Rightarrow> bool" where
  "match_at word s \<longleftrightarrow>
     word ! s = CHR ''$'' \<and>
     (peek word (Suc s) = CHR ''$'' \<or> peek word (Suc s) = CHR ''!'' \<or> peek word (Suc s) = CHR ''?'' \<or>
      (peek word (Suc s) = CHR ''{'' \<and> strchr word (s + 2) (CHR ''}'') \<noteq> None))"

lemma param_scan_skip:
  assumes "s < length word" "\<not> match_at word s"
  shows "param_scan word s = param_scan word (Suc s)"
proof (cases "word ! s = CHR ''$''")
  case True
  with assms have sc: "strchr word s (CHR ''$'') = Some s" by (simp add: strchr_here)
  from assms True have
    "peek word (Suc s) \<noteq> CHR ''$''" "peek word (Suc s) \<noteq> CHR ''!''" "peek word (Suc s) \<noteq> CHR ''?''"
    "peek word (Suc s) = CHR ''{'' \<Longrightarrow> strchr word (s + 2) (CHR ''}'') = None"
    by (auto simp: match_at_def)
  with assms(1) sc show ?thesis
    by (subst param_scan.simps) (auto simp: Let_def)
next
  case False
  with assms have sc: "strchr word s (CHR ''$'') = strchr word (Suc s) (CHR ''$'')"
    by (simp add: strchr_skip)
  show ?thesis
  proof (cases "Suc s < length word")
    case True
    with assms(1) sc show ?thesis
      by (subst param_scan.simps, subst (2) param_scan.simps) simp
  next
    case False
    then have "strchr word (Suc s) (CHR ''$'') = None" by (simp add: strchr_past)
    with assms(1) sc False show ?thesis
      by (subst param_scan.simps, subst (2) param_scan.simps) simp
  qed
qed

lemma param_scan_special:
  assumes "s < length word" "word ! s = CHR ''$''" "peek word (Suc s) = d"
    "d = CHR ''$'' \<or> d = CHR ''!'' \<or> d = CHR ''?''"
  shows "param_scan word s = Param d s (s + 2)"
  using assms by (subst param_scan.simps) (auto simp: strchr_here)

lemma param_scan_brace:
  assumes "s < length word" "word ! s = CHR ''$''" "peek word (Suc s) = CHR ''{''"
    "strchr word (s + 2) (CHR ''}'') = Some e"
  shows "param_scan word s = Param (CHR ''{'') s (Suc e)"
  using assms by (subst param_scan.simps) (auto simp: strchr_here)

text \<open>The bytes that \<open>build_str(pos, start)\<close> copies after a scan from \<open>pos\<close>.\<close>

fun literal_run :: "string \<Rightarrow> nat \<Rightarrow> scan \<Rightarrow> string" where
  "literal_run word pos NoParam = drop pos word"
| "literal_run word pos (Param c s e) = take (s - pos) (drop pos word)"

lemma build_str_literal:
  "snd (build_str (Some (word, pos)) (scan_start r) (Some b)) = Some (b @ literal_run word pos r)"
  by (cases r) (simp_all add: scan_start_def Let_def)

definition param_value :: "environ \<Rightarrow> string \<Rightarrow> char \<Rightarrow> nat \<Rightarrow> nat \<Rightarrow> string" where
  "param_value env word c s e =
     (if c = CHR ''$'' then (case env ''$'' of None \<Rightarrow> [] | Some v \<Rightarrow> v)
      else if c = CHR ''!'' then (case env ''!'' of None \<Rightarrow> [] | Some v \<Rightarrow> v)
      else if c = CHR ''?'' then (case env ''?'' of None \<Rightarrow> ''0'' | Some v \<Rightarrow> v)
      else if c = CHR ''{'' then (case env (take (e - s - 3) (drop (s + 2) word)) of None \<Rightarrow> [] | Some v \<Rightarrow> v)
      else [])"

lemma substitute_value:
  "substitute env word c s e (Some b) = Some (b @ param_value env word c s e)"
  by (simp add: substitute_def param_value_def Let_def split: option.splits)

definition expand_at :: "environ \<Rightarrow> string \<Rightarrow> nat \<Rightarrow> string \<Rightarrow> string option" where
  "expand_at env word pos b =
     expand_loop env word (param_scan word pos) (Some (b @ literal_run word pos (param_scan word pos)))"

lemma expand_eq_expand_at: "expand env word = expand_at env word 0 []"
  by (cases "param_scan word 0") (simp_all add: expand_def expand_at_def Let_def scan_start_def)

lemma expand_loop_Param:
  "expand_loop env word (Param c s e) (Some b) =
   expand_at env word e (b @ param_value env word c s e)"
  by (subst expand_loop.simps)
     (simp add: Let_def substitute_value build_str_literal expand_at_def del: build_str.simps)

lemma expand_loop_acc:
  "expand_loop env word r (Some (a @ b)) = map_option ((@) a) (expand_loop env word r (Some b))"
proof (induction env word r "Some b" arbitrary: b rule: expand_loop.induct)
  case (1 env word)
  show ?case by (simp add: expand_loop.simps)
next
  case (2 env word c s e)
  let ?r = "param_scan word e"
  have "Some (b @ param_value env word c s e @ literal_run word e ?r) =
        snd (build_str (Some (word, e)) (scan_start ?r) (substitute env word c s e (Some b)))"
    by (simp add: substitute_value build_str_literal del: build_str.simps)
  from 2(1) [OF refl refl this]
  have "expand_loop env word ?r (Some (a @ (b @ param_value env word c s e @ literal_run word e ?r))) =
        map_option ((@) a) (expand_loop env word ?r (Some (b @ param_value env word c s e @ literal_run word e ?r)))" .
  then show ?case
    by (simp add: expand_loop_Param expand_at_def)
qed

lemma expand_at_acc: "expand_at env word pos (a @ b) = map_option ((@) a) (expand_at env word pos b)"
  using expand_loop_acc [of env word "param_scan word pos" a "b @ literal_run word pos (param_scan word pos)"]
  by (simp add: expand_at_def)

lemma expand_at_acc0: "expand_at env word pos a = map_option ((@) a) (expand_at env word pos [])"
  using expand_at_acc [of env word pos a "[]"] by simp


lemma substitute_shift:
  "substitute env (pre @ w) c (length pre + s) (length pre + e) base = substitute env w c s e base"
  by (simp add: substitute_def Let_def)

lemma build_str_shift:
  "build_str (Some (pre @ w, length pre + e)) (scan_start (shift (length pre) r)) base =
   build_str (Some (w, e)) (scan_start r) base"
  by (cases r) (simp_all add: scan_start_def Let_def)

lemma expand_loop_shift:
  "expand_loop env (pre @ w) (shift (length pre) r) base = expand_loop env w r base"
proof (induction env w r base rule: expand_loop.induct)
  case (1 env word base)
  show ?case by (simp add: expand_loop.simps)
next
  case (2 env word c s e base)
  have "expand_loop env (pre @ word) (shift (length pre) (Param c s e)) base =
        expand_loop env (pre @ word) (shift (length pre) (param_scan word e))
          (snd (build_str (Some (word, e)) (scan_start (param_scan word e)) (substitute env word c s e base)))"
    by (simp add: expand_loop.simps [of env "pre @ word"] Let_def substitute_shift
        param_scan_shift build_str_shift del: build_str.simps)
  also have "\<dots> = expand_loop env word (param_scan word e)
          (snd (build_str (Some (word, e)) (scan_start (param_scan word e)) (substitute env word c s e base)))"
    by (rule 2 [OF refl refl refl])
  also have "\<dots> = expand_loop env word (Param c s e) base"
    by (simp add: expand_loop.simps [of env word] Let_def del: build_str.simps)
  finally show ?case .
qed

lemma literal_run_shift:
  "literal_run (pre @ w) (length pre + pos) (shift (length pre) r) = literal_run w pos r"
  by (cases r) simp_all

lemma expand_at_shift:
  "expand_at env (pre @ w) (length pre + pos) b = expand_at env w pos b"
  by (simp add: expand_at_def param_scan_shift literal_run_shift expand_loop_shift)

lemma expand_at_Nil: "expand_at env [] 0 [] = Some []"
  by (simp add: expand_at_def param_scan.simps [of "[]"] expand_loop.simps)

lemma append_single: "(@) [c] = (#) c"
  by (rule ext) simp

lemma expand_at_skip:
  assumes "\<not> match_at (c # w) 0"
  shows "expand_at env (c # w) 0 [] = map_option ((#) c) (expand_at env w 0 [])"
proof -
  let ?r = "param_scan w 0"
  have ps: "param_scan (c # w) 0 = shift (Suc 0) ?r"
    using param_scan_skip [of 0 "c # w"] assms param_scan_shift [of "[c]" w 0] by simp
  have lit: "literal_run (c # w) 0 (shift (Suc 0) ?r) = c # literal_run w 0 ?r"
    by (cases ?r) simp_all
  have "expand_at env (c # w) 0 [] = expand_loop env ([c] @ w) (shift (length [c]) ?r) (Some ([c] @ literal_run w 0 ?r))"
    by (simp add: expand_at_def ps lit)
  also have "\<dots> = expand_loop env w ?r (Some ([c] @ literal_run w 0 ?r))"
    by (rule expand_loop_shift)
  also have "\<dots> = map_option ((@) [c]) (expand_loop env w ?r (Some (literal_run w 0 ?r)))"
    by (rule expand_loop_acc)
  finally show ?thesis by (simp add: expand_at_def append_single)
qed

lemma expand_at_hit:
  assumes "param_scan word 0 = Param k 0 e"
  shows "expand_at env word 0 [] =
         map_option ((@) (param_value env word k 0 e)) (expand_at env (drop e word) 0 [])"
proof -
  from param_scan_Param [OF assms] have e: "e \<le> length word" by simp
  have "expand_at env word 0 [] = expand_at env word e (param_value env word k 0 e)"
    by (simp add: expand_at_def [of env word 0] assms expand_loop_Param)
  also have "\<dots> = map_option ((@) (param_value env word k 0 e)) (expand_at env word e [])"
    by (rule expand_at_acc0)
  also have "expand_at env word e [] = expand_at env (take e word @ drop e word) (length (take e word) + 0) []"
    using e by simp
  also have "\<dots> = expand_at env (drop e word) 0 []"
    by (rule expand_at_shift)
  finally show ?thesis .
qed

text \<open>
  The expander as the specification words it, by recursion on the text: \<open>$$\<close> and \<open>$!\<close>
  give the parameter's value (empty when unset), \<open>$?\<close> gives the status (\<open>0\<close> when
  unset), \<open>${name}\<close> with \<open>name\<close> running up to the next \<open>}\<close> gives the variable's
  value (empty when unset), and every other byte is copied.
\<close>

function expand_spec :: "environ \<Rightarrow> string \<Rightarrow> string" where
  "expand_spec env [] = []"
| "expand_spec env [c] = [c]"
| "expand_spec env (c # d # w) =
     (if c = CHR ''$'' \<and> (d = CHR ''$'' \<or> d = CHR ''!'') then
        (case env [d] of None \<Rightarrow> [] | Some v \<Rightarrow> v) @ expand_spec env w
      else if c = CHR ''$'' \<and> d = CHR ''?'' then
        (case env ''?'' of None \<Rightarrow> ''0'' | Some v \<Rightarrow> v) @ expand_spec env w
      else if c = CHR ''$'' \<and> d = CHR ''{'' \<and> CHR ''}'' \<in> set w then
        (case env (takeWhile (\<lambda>x. x \<noteq> CHR ''}'') w) of None \<Rightarrow> [] | Some v \<Rightarrow> v)
          @ expand_spec env (tl (dropWhile (\<lambda>x. x \<noteq> CHR ''}'') w))
      else c # expand_spec env (d # w))"
  by pat_completeness auto
termination
proof (relation "measure (\<lambda>(env, w). length w)", goal_cases)
  case (4 env c d w)
  have "length (dropWhile (\<lambda>x. x \<noteq> CHR ''}'') w) \<le> length w"
    by (rule length_dropWhile_le)
  then show ?case by simp
qed simp_all

declare expand_spec.simps(3) [simp del]

lemma brace_strchr:
  "strchr (c # d # w) (Suc (Suc 0)) (CHR ''}'') =
     (if CHR ''}'' \<in> set w then Some (Suc (Suc (length (takeWhile (\<lambda>x. x \<noteq> CHR ''}'') w)))) else None)"
  by (simp add: strchr_def)

theorem expand_refines: "expand env word = Some (expand_spec env word)"
proof -
  have "expand_at env word 0 [] = Some (expand_spec env word)"
  proof (induction env word rule: expand_spec.induct)
    case (1 env)
    show ?case by (simp add: expand_at_Nil)
  next
    case (2 env c)
    have "\<not> match_at [c] 0" by (simp add: match_at_def peek_def)
    from expand_at_skip [OF this] show ?case by (simp add: expand_at_Nil)
  next
    case (3 env c d w)
    let ?word = "c # d # w"
    have pk: "peek ?word (Suc 0) = d" by (simp add: peek_def)
    let ?tw = "takeWhile (\<lambda>x. x \<noteq> CHR ''}'') w"
    consider (special) "c = CHR ''$''" "d = CHR ''$'' \<or> d = CHR ''!''"
      | (status) "c = CHR ''$''" "d = CHR ''?''"
      | (brace) "c = CHR ''$''" "d = CHR ''{''" "CHR ''}'' \<in> set w"
      | (plain) "\<not> (c = CHR ''$'' \<and> (d = CHR ''$'' \<or> d = CHR ''!''))" "\<not> (c = CHR ''$'' \<and> d = CHR ''?'')"
          "\<not> (c = CHR ''$'' \<and> d = CHR ''{'' \<and> CHR ''}'' \<in> set w)"
      by blast
    then show ?case
    proof cases
      case special
      have ps: "param_scan ?word 0 = Param d 0 2"
        using param_scan_special [of 0 ?word d] special pk by (auto simp: numeral_2_eq_2)
      have v: "param_value env ?word d 0 2 = (case env [d] of None \<Rightarrow> [] | Some v \<Rightarrow> v)"
        using special by (auto simp: param_value_def)
      from expand_at_hit [OF ps, of env] 3(1) special v show ?thesis
        by (simp add: expand_spec.simps(3))
    next
      case status
      have ps: "param_scan ?word 0 = Param d 0 2"
        using param_scan_special [of 0 ?word d] status pk by (auto simp: numeral_2_eq_2)
      have v: "param_value env ?word d 0 2 = (case env ''?'' of None \<Rightarrow> ''0'' | Some v \<Rightarrow> v)"
        using status by (auto simp: param_value_def)
      from expand_at_hit [OF ps, of env] 3(2) status v show ?thesis
        by (simp add: expand_spec.simps(3))
    next
      case brace
      have sc: "strchr ?word (0 + 2) (CHR ''}'') = Some (2 + length ?tw)"
        using brace by (simp add: numeral_2_eq_2 brace_strchr)
      have ps: "param_scan ?word 0 = Param (CHR ''{'') 0 (Suc (2 + length ?tw))"
        using param_scan_brace [OF _ _ _ sc] brace pk by simp
      have v: "param_value env ?word (CHR ''{'') 0 (Suc (2 + length ?tw)) =
               (case env ?tw of None \<Rightarrow> [] | Some v \<Rightarrow> v)"
        using takeWhile_eq_take [of "\<lambda>x. x \<noteq> CHR ''}''" w] by (simp add: param_value_def)
      have dr: "drop (Suc (2 + length ?tw)) ?word = tl (dropWhile (\<lambda>x. x \<noteq> CHR ''}'') w)"
        by (simp add: dropWhile_eq_drop drop_Suc tl_drop)
      from expand_at_hit [OF ps, of env] 3(3) brace v dr show ?thesis
        by (simp add: expand_spec.simps(3))
    next
      case plain
      then have nm: "\<not> match_at ?word 0"
        by (auto simp: match_at_def pk numeral_2_eq_2 brace_strchr split: if_splits)
      from plain have "expand_spec env ?word = c # expand_spec env (d # w)"
        by (auto simp: expand_spec.simps(3))
      with expand_at_skip [OF nm, of env] 3(4) plain show ?thesis
        by auto
    qed
  qed
  then show ?thesis by (simp add: expand_eq_expand_at)
qed


lemma param_scan_found:
  "param_scan word pos = Param c s e \<Longrightarrow>
     pos \<le> s \<and> s < length word \<and> word ! s = CHR ''$'' \<and> peek word (Suc s) = c \<and>
     ((c = CHR ''$'' \<or> c = CHR ''!'' \<or> c = CHR ''?'') \<and> e = s + 2 \<or>
      c = CHR ''{'' \<and> (\<exists>e0. strchr word (s + 2) (CHR ''}'') = Some e0 \<and> e = Suc e0))"
proof (induction word pos rule: param_scan.induct)
  case (1 word p)
  from "1.prems" have lt: "p < length word"
    by (subst (asm) param_scan.simps) (auto split: if_splits)
  from "1.prems" lt obtain s' where s': "strchr word p (CHR ''$'') = Some s'"
    by (subst (asm) param_scan.simps) (auto split: option.splits)
  note b = strchr_bounds [OF s']
  define n where "n = peek word (Suc s')"
  show ?case
  proof (cases "n = CHR ''$'' \<or> n = CHR ''!'' \<or> n = CHR ''?''")
    case True
    with "1.prems" lt s' have "c = n \<and> s = s' \<and> e = s' + 2"
      by (subst (asm) param_scan.simps) (simp add: n_def [symmetric])
    with True b show ?thesis by (auto simp: n_def)
  next
    case nsp: False
    show ?thesis
    proof (cases "n = CHR ''{''")
      case br: True
      show ?thesis
      proof (cases "strchr word (s' + 2) (CHR ''}'')")
        case None
        with "1.prems" lt s' br have "param_scan word (Suc s') = Param c s e"
          by (subst (asm) param_scan.simps) (simp add: n_def [symmetric])
        from "1.IH"(1) [OF lt s' n_def nsp br None this] b show ?thesis by auto
      next
        case (Some e0)
        with "1.prems" lt s' br have "c = n \<and> s = s' \<and> e = Suc e0"
          by (subst (asm) param_scan.simps) (simp add: n_def [symmetric])
        with br b Some show ?thesis by (auto simp: n_def)
      qed
    next
      case nbr: False
      with "1.prems" lt s' nsp have "param_scan word (Suc s') = Param c s e"
        by (subst (asm) param_scan.simps) (simp add: n_def [symmetric])
      from "1.IH"(2) [OF lt s' n_def nsp nbr this] b show ?thesis by auto
    qed
  qed
qed

lemma strchr_first:
  assumes "strchr str s ch = Some i"
  shows "ch \<notin> set (take (i - s) (drop s str))"
proof -
  let ?tw = "takeWhile (\<lambda>x. x \<noteq> ch) (drop s str)"
  from assms have i: "i = s + length ?tw"
    by (auto simp: strchr_def split: if_splits)
  have "take (i - s) (drop s str) = ?tw"
    using takeWhile_eq_take [of "\<lambda>x. x \<noteq> ch" "drop s str"] i by simp
  moreover have "ch \<notin> set ?tw"
    by (auto dest: set_takeWhileD)
  ultimately show ?thesis by simp
qed

lemma param_scan_brace_shape:
  assumes "param_scan word pos = Param (CHR ''{'') s e"
  shows "pos \<le> s \<and> take 2 (drop s word) = ''${'' \<and> s + 3 \<le> e \<and> e \<le> length word \<and>
         word ! (e - 1) = CHR ''}'' \<and> CHR ''}'' \<notin> set (take (e - s - 3) (drop (s + 2) word))"
proof -
  from param_scan_found [OF assms] obtain e0 where
    f: "pos \<le> s" "s < length word" "word ! s = CHR ''$''" "peek word (Suc s) = CHR ''{''"
    and sc: "strchr word (s + 2) (CHR ''}'') = Some e0" and e: "e = Suc e0"
    by auto
  from f(4) have s1: "Suc s < length word" "word ! Suc s = CHR ''{''"
    by (auto simp: peek_def split: if_splits)
  from strchr_bounds [OF sc] have b: "s + 2 \<le> e0" "e0 < length word" "word ! e0 = CHR ''}''"
    by simp_all
  have "take 2 (drop s word) = [word ! s, word ! Suc s]"
    using f(2) s1(1) by (simp add: numeral_2_eq_2 take_Suc_conv_app_nth)
  with f(3) s1(2) have "take 2 (drop s word) = ''${''" by simp
  moreover from strchr_first [OF sc] e
  have "CHR ''}'' \<notin> set (take (e - s - 3) (drop (s + 2) word))" by simp
  ultimately show ?thesis using f(1) b e by simp
qed

lemma expand_spec_plain: "c \<noteq> CHR ''$'' \<Longrightarrow> expand_spec env (c # w) = c # expand_spec env w"
  by (cases w) (simp_all add: expand_spec.simps(3))

lemma expand_spec_literal_prefix:
  "CHR ''$'' \<notin> set pre \<Longrightarrow> expand_spec env (pre @ w) = pre @ expand_spec env w"
proof (induction pre)
  case Nil
  show ?case by simp
next
  case (Cons a pre)
  then have "a \<noteq> CHR ''$''" and "expand_spec env (pre @ w) = pre @ expand_spec env w"
    by auto
  then show ?case using expand_spec_plain [of a env "pre @ w"] by simp
qed

lemma expand_spec_open_brace:
  "CHR ''}'' \<notin> set rest \<Longrightarrow> expand_spec env (''${'' @ rest) = ''${'' @ expand_spec env rest"
  by (simp add: expand_spec.simps(3) expand_spec_plain)

lemma expand_spec_unterminated:
  assumes "CHR ''}'' \<notin> set rest"
  shows "expand_spec env (pre @ ''${'' @ rest) = expand_spec env (pre @ ''$'') @ ''{'' @ expand_spec env rest"
proof (induction env pre rule: expand_spec.induct)
  case (1 env)
  show ?case using expand_spec_open_brace [OF assms] by simp
next
  case (2 env c)
  show ?case
  proof (cases "c = CHR ''$''")
    case True
    then show ?thesis by (simp add: expand_spec.simps(3) expand_spec_plain)
  next
    case False
    then show ?thesis using expand_spec_open_brace [OF assms]
      by (simp add: expand_spec_plain)
  qed
next
  case (3 env c d w)
  let ?P = "\<lambda>x. x \<noteq> CHR ''}''"
  have mem: "CHR ''}'' \<in> set (w @ ''${'' @ rest) \<longleftrightarrow> CHR ''}'' \<in> set w"
    using assms by auto
  have mem2: "CHR ''}'' \<in> set (w @ ''$'') \<longleftrightarrow> CHR ''}'' \<in> set w"
    by auto
  have tw: "CHR ''}'' \<in> set w \<Longrightarrow> takeWhile ?P (w @ ys) = takeWhile ?P w" for ys
    by (rule takeWhile_append1 [of "CHR ''}''"]) simp_all
  have dw: "CHR ''}'' \<in> set w \<Longrightarrow> tl (dropWhile ?P (w @ ys)) = tl (dropWhile ?P w) @ ys" for ys
  proof -
    assume m: "CHR ''}'' \<in> set w"
    then have "dropWhile ?P (w @ ys) = dropWhile ?P w @ ys"
      by (intro dropWhile_append1 [of "CHR ''}''"]) simp_all
    moreover from m have "dropWhile ?P w \<noteq> []" by (auto simp: dropWhile_eq_Nil_conv)
    ultimately show ?thesis by simp
  qed
  consider (special) "c = CHR ''$''" "d = CHR ''$'' \<or> d = CHR ''!''"
    | (status) "c = CHR ''$''" "d = CHR ''?''"
    | (brace) "c = CHR ''$''" "d = CHR ''{''" "CHR ''}'' \<in> set w"
    | (plain) "\<not> (c = CHR ''$'' \<and> (d = CHR ''$'' \<or> d = CHR ''!''))" "\<not> (c = CHR ''$'' \<and> d = CHR ''?'')"
        "\<not> (c = CHR ''$'' \<and> d = CHR ''{'' \<and> CHR ''}'' \<in> set w)"
    by blast
  then show ?case
  proof cases
    case special
    with 3(1) show ?thesis by (auto simp: expand_spec.simps(3))
  next
    case status
    with 3(2) show ?thesis by (auto simp: expand_spec.simps(3))
  next
    case brace
    from 3(3) brace
    have ih: "expand_spec env (tl (dropWhile ?P w) @ ''${'' @ rest) =
          expand_spec env (tl (dropWhile ?P w) @ ''$'') @ ''{'' @ expand_spec env rest" by simp
    have l: "expand_spec env ((c # d # w) @ ''${'' @ rest) =
          (case env (takeWhile ?P w) of None \<Rightarrow> [] | Some v \<Rightarrow> v) @ expand_spec env (tl (dropWhile ?P w) @ ''${'' @ rest)"
      using brace mem tw [of "''${'' @ rest"] dw [of "''${'' @ rest"]
      by (simp add: expand_spec.simps(3))
    have r: "expand_spec env ((c # d # w) @ ''$'') =
          (case env (takeWhile ?P w) of None \<Rightarrow> [] | Some v \<Rightarrow> v) @ expand_spec env (tl (dropWhile ?P w) @ ''$'')"
      using brace mem2 tw [of "''$''"] dw [of "''$''"]
      by (simp add: expand_spec.simps(3))
    show ?thesis by (simp only: l r ih append_assoc)
  next
    case plain
    from plain have l: "expand_spec env ((c # d # w) @ ''${'' @ rest) = c # expand_spec env ((d # w) @ ''${'' @ rest)"
      using mem by (auto simp: expand_spec.simps(3))
    from plain have r: "expand_spec env ((c # d # w) @ ''$'') = c # expand_spec env ((d # w) @ ''$'')"
      using mem2 by (auto simp: expand_spec.simps(3))
    from 3(4) plain have "expand_spec env ((d # w) @ ''${'' @ rest) =
          expand_spec env ((d # w) @ ''$'') @ ''{'' @ expand_spec env rest" by blast
    with l r show ?thesis by simp
  qed
qed

lemma expand_spec_no_dollar: "CHR ''$'' \<notin> set w \<Longrightarrow> expand_spec env w = w"
  using expand_spec_literal_prefix [of w env "[]"] by simp

lemma expand_spec_closed_brace:
  assumes "CHR ''}'' \<notin> set name"
  shows "expand_spec env (''${'' @ name @ ''}'' @ rest) =
         (case env name of None \<Rightarrow> [] | Some v \<Rightarrow> v) @ expand_spec env rest"
proof -
  let ?P = "\<lambda>x. x \<noteq> CHR ''}''"
  have "takeWhile ?P (name @ CHR ''}'' # rest) = name"
    using assms by (subst takeWhile_append2) auto
  moreover have "dropWhile ?P (name @ CHR ''}'' # rest) = CHR ''}'' # rest"
    using assms by (subst dropWhile_append2) auto
  ultimately show ?thesis by (simp add: expand_spec.simps(3))
qed


text \<open>
  Claim C6. A braced reference is recognised only when its \<open>${\<close> is closed by the next
  \<open>}\<close>: whenever \<open>param_scan\<close> reports a braced reference from \<open>s\<close> to \<open>e\<close>, the text
  at \<open>s\<close> is \<open>${\<close>, the byte before \<open>e\<close> is \<open>}\<close> and no \<open>}\<close> lies in between; and in a
  word the name ends at the first \<open>}\<close> after \<open>${\<close>. When no \<open>}\<close> follows a \<open>${\<close>, the
  two bytes are not substituted as a braced reference: the expansion is that of the text
  up to and including the \<open>$\<close>, then the literal \<open>{\<close>, then the expansion of the rest
  on its own; in particular a word whose only \<open>$\<close> is that of the unterminated \<open>${\<close>
  is returned unchanged.
\<close>

theorem expand_brace_reference:
  "(param_scan word pos = Param (CHR ''{'') s e \<longrightarrow>
      pos \<le> s \<and> take 2 (drop s word) = ''${'' \<and> s + 3 \<le> e \<and> e \<le> length word \<and>
      word ! (e - 1) = CHR ''}'' \<and> CHR ''}'' \<notin> set (take (e - s - 3) (drop (s + 2) word))) \<and>
   (CHR ''}'' \<notin> set name \<and> CHR ''$'' \<notin> set pre \<longrightarrow>
      (\<exists>b. expand env tail = Some b \<and>
           expand env (pre @ ''${'' @ name @ ''}'' @ tail) =
             Some (pre @ (case env name of None \<Rightarrow> [] | Some v \<Rightarrow> v) @ b))) \<and>
   (CHR ''}'' \<notin> set rest \<longrightarrow>
      (\<exists>a b. expand env (pre @ ''$'') = Some a \<and> expand env rest = Some b \<and>
             expand env (pre @ ''${'' @ rest) = Some (a @ ''{'' @ b)) \<and>
      (CHR ''$'' \<notin> set pre \<and> CHR ''$'' \<notin> set rest \<longrightarrow>
         expand env (pre @ ''${'' @ rest) = Some (pre @ ''${'' @ rest)))"
proof (intro conjI impI)
  assume "param_scan word pos = Param (CHR ''{'') s e"
  from param_scan_brace_shape [OF this]
  show "pos \<le> s" "take 2 (drop s word) = ''${''" "s + 3 \<le> e" "e \<le> length word"
    "word ! (e - 1) = CHR ''}''" "CHR ''}'' \<notin> set (take (e - s - 3) (drop (s + 2) word))"
    by simp_all
next
  assume "CHR ''}'' \<notin> set name \<and> CHR ''$'' \<notin> set pre"
  then have "expand_spec env (pre @ ''${'' @ name @ ''}'' @ tail) =
        pre @ (case env name of None \<Rightarrow> [] | Some v \<Rightarrow> v) @ expand_spec env tail"
    using expand_spec_closed_brace [of name env tail]
    by (simp add: expand_spec_literal_prefix)
  then show "\<exists>b. expand env tail = Some b \<and>
           expand env (pre @ ''${'' @ name @ ''}'' @ tail) =
             Some (pre @ (case env name of None \<Rightarrow> [] | Some v \<Rightarrow> v) @ b)"
    by (simp add: expand_refines)
next
  assume "CHR ''}'' \<notin> set rest"
  from expand_spec_unterminated [OF this, of env pre]
  show "\<exists>a b. expand env (pre @ ''$'') = Some a \<and> expand env rest = Some b \<and>
             expand env (pre @ ''${'' @ rest) = Some (a @ ''{'' @ b)"
    by (simp add: expand_refines)
next
  assume r: "CHR ''}'' \<notin> set rest" and "CHR ''$'' \<notin> set pre \<and> CHR ''$'' \<notin> set rest"
  then have "expand_spec env (pre @ ''${'' @ rest) = pre @ ''${'' @ rest"
    using expand_spec_open_brace [OF r, of env]
    by (simp add: expand_spec_literal_prefix expand_spec_no_dollar)
  then show "expand env (pre @ ''${'' @ rest) = Some (pre @ ''${'' @ rest)"
    by (simp add: expand_refines)
qed

theorem expand_brace_reference_witness:
  "param_scan ''a${X}b}'' 0 = Param (CHR ''{'') 1 5 \<and>
   take 2 (drop 1 ''a${X}b}'') = ''${'' \<and> ''a${X}b}'' ! (5 - 1) = CHR ''}'' \<and>
   expand [''X'' \<mapsto> ''v''] ''a${X}b}'' = Some ''avb}'' \<and>
   expand [''X'' \<mapsto> ''v''] ''a${X'' = Some ''a${X''"
proof -
  have ps: "param_scan ''a${X}b}'' 0 = Param (CHR ''{'') 1 5"
    by (simp add: param_scan.simps strchr_def peek_def)
  have t: "expand [''X'' \<mapsto> ''v''] ''b}'' = Some ''b}''"
    by (simp add: expand_def param_scan.simps strchr_def peek_def expand_loop.simps scan_start_def Let_def)
  from expand_brace_reference [of "''a${X}b}''" 0 1 5 "''X''" "''a''" "[''X'' \<mapsto> ''v'']" "''b}''" "''X''"] ps t
  show ?thesis by simp
qed


section \<open>Properties of the command parser\<close>

text \<open>
  The token sequence without each redirection operator and the token after it, as the
  specification words it.
\<close>

fun strip_redirections :: "string list \<Rightarrow> string list" where
  "strip_redirections [] = []"
| "strip_redirections [w] = (if is_redirection w then [] else [w])"
| "strip_redirections (w # t # ws) =
     (if is_redirection w then strip_redirections ws else w # strip_redirections (t # ws))"

lemma strip_redirections_Cons:
  "strip_redirections (w # ws) =
     (if is_redirection w then strip_redirections (drop 1 ws) else w # strip_redirections ws)"
  by (cases ws) simp_all

lemma length_strip_redirections: "length (strip_redirections ws) \<le> length ws"
  by (induction ws rule: strip_redirections.induct) auto

lemma copy_args_strip:
  assumes "length words \<le> MAX_WORDS"
    and "words_argc + length (strip_redirections (drop i words)) \<le> length words_argv"
  shows "copy_args words (length words) i words_argv words_argc =
         Inr (take words_argc words_argv @ map Str (strip_redirections (drop i words))
                @ drop (words_argc + length (strip_redirections (drop i words))) words_argv,
              words_argc + length (strip_redirections (drop i words)))"
  using assms(2)
proof (induction words "length words" i words_argv words_argc rule: copy_args.induct)
  case (1 words i argv argc)
  show ?case
  proof (cases "i < length words")
    case False
    then show ?thesis by (subst copy_args.simps) simp
  next
    case lt: True
    let ?w = "words ! i"
    have wa: "words_at words i = Inr (Some ?w)" using lt by (simp add: words_at_def)
    have dr: "drop i words = ?w # drop (Suc i) words"
      using lt by (simp add: Cons_nth_drop_Suc)
    show ?thesis
    proof (cases "is_redirection ?w")
      case True
      have st: "strip_redirections (drop i words) = strip_redirections (drop (i + 2) words)"
        using True by (simp add: dr strip_redirections_Cons)
      from "1.prems" st
      have room: "argc + length (strip_redirections (drop (i + 2) words)) \<le> length argv" by simp
      have "copy_args words (length words) (i + 2) argv argc =
            Inr (take argc argv @ map Str (strip_redirections (drop (i + 2) words))
                   @ drop (argc + length (strip_redirections (drop (i + 2) words))) argv,
                 argc + length (strip_redirections (drop (i + 2) words)))"
        using "1.hyps"(1) lt wa True room by blast
      with lt wa True st show ?thesis
        by (subst copy_args.simps) simp
    next
      case False
      let ?rest = "strip_redirections (drop (Suc i) words)"
      have st: "strip_redirections (drop i words) = ?w # ?rest"
        using False by (simp add: dr strip_redirections_Cons)
      from "1.prems" st have room: "Suc argc + length ?rest \<le> length argv" by simp
      then have lt2: "argc < length argv" by simp
      let ?argv' = "argv[argc := Str ?w]"
      have sto: "store argv argc (Str ?w) = Inr ?argv'" using lt2 by (simp add: store_def)
      from room have room': "Suc argc + length ?rest \<le> length ?argv'" by simp
      have tk: "take (Suc argc) ?argv' = take argc argv @ [Str ?w]"
        using lt2 by (simp add: take_Suc_conv_app_nth)
      have "copy_args words (length words) i argv argc =
            copy_args words (length words) (Suc i) ?argv' (Suc argc)"
        using lt wa False sto by (subst copy_args.simps) simp
      also have "\<dots> = Inr (take (Suc argc) ?argv' @ map Str ?rest @ drop (Suc argc + length ?rest) ?argv',
                            Suc argc + length ?rest)"
        using "1.hyps"(2) lt wa False sto room' by blast
      finally show ?thesis using st tk by simp
    qed
  qed
qed

text \<open>The parsed command as the specification words it.\<close>

definition parsed_args :: "string list \<Rightarrow> string list" where
  "parsed_args words =
     (let r = strip_redirections words in if r \<noteq> [] \<and> last r = ''&'' then butlast r else r)"

definition parsed_background :: "string list \<Rightarrow> bool" where
  "parsed_background words \<longleftrightarrow>
     (let r = strip_redirections words in r \<noteq> [] \<and> last r = ''&'')"

lemma size_t_pred_Suc: "n < 2 ^ 64 \<Longrightarrow> size_t_pred (Suc n) = n"
  by (simp add: size_t_pred_def)

lemma parse_command_nonempty:
  assumes "length words \<le> MAX_WORDS" "strip_redirections words \<noteq> []"
  shows "\<exists>argv. parse_command words (length words) (malloc_argv (length words)) =
            Inr (argv, length (parsed_args words), if parsed_background words then 1 else 0)
          \<and> length argv = length words + 1
          \<and> take (length (parsed_args words)) argv = map Str (parsed_args words)
          \<and> argv ! length (parsed_args words) = Null"
proof -
  let ?n = "length words"
  let ?r = "strip_redirections words"
  let ?m = "malloc_argv ?n"
  let ?a = "map Str ?r @ drop (length ?r) ?m"
  have len: "length ?r \<le> ?n" by (rule length_strip_redirections)
  have cp: "copy_args words ?n 0 ?m 0 = Inr (?a, length ?r)"
    using copy_args_strip [OF assms(1), of 0 0 ?m] len by (simp add: malloc_argv_def)
  obtain k where k: "length ?r = Suc k" using assms(2) by (cases ?r) auto
  have "k < 2 ^ 64" using len k assms(1) by (simp add: MAX_WORDS_def)
  then have pred: "size_t_pred (length ?r) = k" by (simp add: k size_t_pred_Suc)
  have la: "length ?a = ?n + 1" using len by (simp add: malloc_argv_def)
  have lastcell: "?a ! k = Str (last ?r)"
    using k assms(2) by (simp add: nth_append last_conv_nth)
  have ld: "load ?a k = Inr (Some (last ?r))"
    using la k len lastcell by (simp add: load_def)
  show ?thesis
  proof (cases "last ?r = ''&''")
    case True
    have pa: "parsed_args words = butlast ?r" "parsed_background words"
      using True assms(2) by (simp_all add: parsed_args_def parsed_background_def)
    have st: "store ?a k Null = Inr (?a[k := Null])"
      using la k len by (simp add: store_def)
    have res: "parse_command words ?n ?m = Inr (?a[k := Null], k, 1)"
      using cp pred ld True st by (simp add: parse_command_def)
    have "take k (?a[k := Null]) = map Str (butlast ?r)"
      using k by (simp add: butlast_conv_take take_map)
    moreover have "(?a[k := Null]) ! k = Null" using la k len by simp
    ultimately show ?thesis using res pa k la by simp
  next
    case False
    have pa: "parsed_args words = ?r" "\<not> parsed_background words"
      using False by (simp_all add: parsed_args_def parsed_background_def)
    have st: "store ?a (length ?r) Null = Inr (?a[length ?r := Null])"
      using la len by (simp add: store_def)
    have res: "parse_command words ?n ?m = Inr (?a[length ?r := Null], length ?r, 0)"
      using cp pred ld False st k by (simp add: parse_command_def)
    have "take (length ?r) (?a[length ?r := Null]) = map Str ?r" by simp
    moreover have "(?a[length ?r := Null]) ! length ?r = Null" using la len by simp
    ultimately show ?thesis using res pa la by simp
  qed
qed

lemma parse_command_empty:
  assumes "length words \<le> MAX_WORDS" "strip_redirections words = []"
  shows "parse_command words (length words) (malloc_argv (length words)) = Inl (OutOfBounds (2 ^ 64 - 1))"
proof -
  have "copy_args words (length words) 0 (malloc_argv (length words)) 0 = Inr (malloc_argv (length words), 0)"
    using copy_args_strip [OF assms(1), of 0 0 "malloc_argv (length words)"] assms(2) by simp
  moreover have "length (malloc_argv (length words)) < 2 ^ 64 - 1"
    using assms(1) by (simp add: malloc_argv_def MAX_WORDS_def)
  ultimately show ?thesis
    by (simp add: parse_command_def size_t_pred_def load_def)
qed

text \<open>
  Claim C5. The claim covers every expanded token sequence. For a sequence that leaves at
  least one argument, \<open>parse_command_nonempty\<close> above shows what the claim says. For a
  sequence made only of redirection operators and their targets nothing is left,
  \<open>words_argc\<close> is 0, and the test for the background marker reads
  \<open>words_argv[words_argc - 1]\<close>, an entry outside the vector: the flag is not cleared and
  no terminator is written. The line \<open>> out\<close> is such a sequence.
\<close>

theorem parse_command_only_redirection:
  "parse_command [''>'', ''out''] 2 (malloc_argv 2) = Inl (OutOfBounds (2 ^ 64 - 1))"
  by (simp add: parse_command_def copy_args.simps words_at_def is_redirection_def load_def
      size_t_pred_def malloc_argv_def)


section \<open>Properties of the built-in commands and the job executor\<close>

text \<open>
  Claim C1. The claim says that after \<open>exit\<close> with too many arguments, or with an
  argument that is not an integer, the interpreter goes on to the next prompt. The
  function reports the error and sets \<open>?\<close> to \<open>1\<close>, but then falls through to its final
  \<open>exit(exit_code)\<close>: for the command \<open>exit 1 2\<close> the process ends, with the status read
  back from the \<open>?\<close> it has just set. No input makes \<open>builtin_exit\<close> return
  (\<open>builtin_exit_never_returns\<close> below).
\<close>

theorem builtin_exit_too_many_arguments:
  "builtin_exit strtol [Str ''exit'', Str ''1'', Str ''2'', Null] 3 st =
     Exit (int_of_long (fst (strtol ''1'')))
          (setenv ''?'' ''1'' (eprint (''smallsh: exit: too many arguments'' @ NL) st))"
  by (simp add: builtin_exit_def getenv_def setenv_def eprint_def)


lemma builtin_exit_never_returns: "builtin_exit strtol argv argc st \<noteq> Ok st'"
  by (auto simp: builtin_exit_def Let_def split: sum.splits option.splits prod.splits)

lemma expand_status_parameter:
  "expand e ''$?'' = Some (case e ''?'' of None \<Rightarrow> ''0'' | Some v \<Rightarrow> v)"
  by (simp add: expand_refines expand_spec.simps(3))

text \<open>The number a string of decimal digits denotes.\<close>

definition digit_value :: "char \<Rightarrow> nat" where
  "digit_value c = of_char c - 48"

definition dec_value :: "string \<Rightarrow> nat" where
  "dec_value s = foldl (\<lambda>a c. 10 * a + digit_value c) 0 s"

lemma digit_value_digit: "d < 10 \<Longrightarrow> digit_value (''0123456789'' ! d) = d"
proof -
  assume "d < 10"
  then consider "d = 0" | "d = 1" | "d = 2" | "d = 3" | "d = 4" | "d = 5" | "d = 6" | "d = 7"
    | "d = 8" | "d = 9"
    by atomize_elim arith
  then show ?thesis by cases (simp_all add: digit_value_def)
qed

lemma dec_value_dec_nat: "dec_value (dec_nat n) = n"
proof (induction n rule: dec_nat.induct)
  case (1 n)
  show ?case
  proof (cases "n < 10")
    case True
    then show ?thesis
      by (subst dec_nat.simps) (simp add: dec_value_def digit_value_digit)
  next
    case False
    with 1 have "dec_value (dec_nat (n div 10)) = n div 10" by simp
    with False show ?thesis
      by (subst dec_nat.simps) (simp add: dec_value_def digit_value_digit)
  qed
qed

lemma sprintf_d_decimal: "0 \<le> i \<Longrightarrow> int (dec_value (sprintf_d i)) = i"
  by (simp add: sprintf_d_def dec_value_dec_nat)

text \<open>
  Claim C3. For a command run in the foreground (background flag clear, \<open>fork\<close> answered
  with a child's id): when the wait reports that the child exited with code \<open>N\<close>, the
  parameter \<open>?\<close> is set to the decimal string of \<open>N\<close>; when it reports that the child was
  terminated by signal \<open>S\<close>, \<open>?\<close> is set to the decimal string of \<open>128 + S\<close>; and a
  following \<open>$?\<close> expands to that string. This holds for every \<open>N\<close>, so for
  \<open>0 \<le> N \<le> 255\<close>. The decimal string is \<open>sprintf_d\<close>, which \<open>sprintf_d_decimal\<close> above
  relates to the number it denotes.
\<close>

theorem foreground_status:
  assumes "bg_flag st = 0" "fork_ret os \<noteq> - 1" "fork_ret os \<noteq> 0"
  shows "(wait_stat os = WExited N \<longrightarrow>
            (\<exists>st'. execute_nonbuiltin_cmds os words words_argv st = Ok st' \<and>
                   environ st' ''?'' = Some (sprintf_d N) \<and>
                   expand (environ st') ''$?'' = Some (sprintf_d N))) \<and>
         (wait_stat os = WSignaled S \<longrightarrow>
            (\<exists>st'. execute_nonbuiltin_cmds os words words_argv st = Ok st' \<and>
                   environ st' ''?'' = Some (sprintf_d (128 + S)) \<and>
                   expand (environ st') ''$?'' = Some (sprintf_d (128 + S))))"
  using assms
  by (simp add: execute_nonbuiltin_cmds_def parent_def Let_def syscall_def setenv_def
      expand_status_parameter)

theorem foreground_status_witness:
  "(\<exists>st'. execute_nonbuiltin_cmds (reply\<lparr>wait_stat := WExited 3\<rparr>) [''false''] [Str ''false'', Null] boot = Ok st'
          \<and> environ st' ''?'' = Some ''3'' \<and> expand (environ st') ''$?'' = Some ''3'') \<and>
   (\<exists>st'. execute_nonbuiltin_cmds (reply\<lparr>wait_stat := WSignaled 9\<rparr>) [''sleep''] [Str ''sleep'', Null] boot = Ok st'
          \<and> environ st' ''?'' = Some ''137'' \<and> expand (environ st') ''$?'' = Some ''137'')"
proof -
  have d3: "sprintf_d 3 = ''3''" by (simp add: sprintf_d_def dec_nat.simps)
  have d137: "sprintf_d 137 = ''137''" by (simp add: sprintf_d_def dec_nat.simps)
  have h: "bg_flag boot = 0" "fork_ret reply \<noteq> - 1" "fork_ret reply \<noteq> 0"
    by (simp_all add: boot_def reply_def)
  from foreground_status [of boot "reply\<lparr>wait_stat := WExited 3\<rparr>" 3 "[''false'']" "[Str ''false'', Null]" 0]
    foreground_status [of boot "reply\<lparr>wait_stat := WSignaled 9\<rparr>" 0 "[''sleep'']" "[Str ''sleep'', Null]" 9]
    h
  show ?thesis by (simp add: d3 d137)
qed

text \<open>
  Claim C4. For a command launched with the background flag set, the parent makes one
  call of \<open>waitpid\<close> for the child, with \<open>WNOHANG\<close> (so it does not block), and no other
  wait; it records the child's id as \<open>!\<close> and changes nothing else in the environment,
  so \<open>?\<close> keeps its value.
\<close>

theorem background_launch:
  assumes "bg_flag st \<noteq> 0" "fork_ret os \<noteq> - 1" "fork_ret os \<noteq> 0"
  shows "\<exists>st'. execute_nonbuiltin_cmds os words words_argv st = Ok st' \<and>
           calls st' = calls st @ [Fork, Waitpid (fork_ret os) [WNOHANG, WUNTRACED]] \<and>
           environ st' = (environ st)(''!'' \<mapsto> sprintf_d (fork_ret os)) \<and>
           environ st' ''?'' = environ st ''?''"
  using assms
  by (simp add: execute_nonbuiltin_cmds_def parent_def Let_def syscall_def setenv_def)


theorem background_launch_witness:
  "\<exists>st'. execute_nonbuiltin_cmds reply [''sleep'', ''5'', ''&''] [Str ''sleep'', Str ''5'', Null]
           (boot\<lparr>bg_flag := 1\<rparr>) = Ok st' \<and>
         calls st' = [Fork, Waitpid 501 [WNOHANG, WUNTRACED]] \<and>
         environ st' ''!'' = Some ''501'' \<and> environ st' ''?'' = None"
proof -
  have d: "sprintf_d 501 = ''501''" by (simp add: sprintf_d_def dec_nat.simps)
  from background_launch [of "boot\<lparr>bg_flag := 1\<rparr>" reply "[''sleep'', ''5'', ''&'']" "[Str ''sleep'', Str ''5'', Null]"]
  show ?thesis by (auto simp: boot_def reply_def d)
qed


section \<open>What a pass of the main loop keeps\<close>

text \<open>
  The part of the state that printing, the environment and the call log leave alone: the
  saved process group, the process group, and the current and saved signal dispositions.
\<close>

definition view :: "shell \<Rightarrow> int \<times> int \<times> sigaction \<times> sigaction \<times> sigaction \<times> sigaction" where
  "view st = (ppgid st, proc_pgrp st, disp_SIGINT st, disp_SIGTSTP st, SIGINT_default st, SIGTSTP_default st)"

lemma view_eprint [simp]: "view (eprint s st) = view st"
  by (simp add: view_def eprint_def)

lemma view_setenv [simp]: "view (setenv n v st) = view st"
  by (simp add: view_def setenv_def)

lemma view_syscall [simp]: "view (syscall c st) = view st"
  by (simp add: view_def syscall_def)

lemma view_print_prompt [simp]: "view (print_prompt st) = view st"
  by (simp add: print_prompt_def split: option.splits)

lemma view_bg_flag [simp]: "view (st\<lparr>bg_flag := b\<rparr>) = view st"
  by (simp add: view_def)

lemma and_then_Ok:
  "and_then r f = Ok y \<longleftrightarrow> (\<exists>x. r = Ok x \<and> f x = Ok y)"
  by (cases r) (simp_all add: and_then_def)

lemma and_then_Exec:
  "and_then r f = Exec st p a \<longleftrightarrow> r = Exec st p a \<or> (\<exists>x. r = Ok x \<and> f x = Exec st p a)"
  by (cases r) (simp_all add: and_then_def)

lemma bg_handler_view: "bg_handler rs st = Ok st' \<Longrightarrow> view st' = view st"
proof (induction rs arbitrary: st)
  case Nil
  then show ?case by auto
next
  case (Cons r rs)
  obtain pid status killed where r: "r = (pid, status, killed)" by (cases r)
  from Cons.prems show ?case
    unfolding r by (auto simp: Let_def split: if_splits dest!: Cons.IH)
qed

lemma bg_handler_not_Exec: "bg_handler rs st \<noteq> Exec st' p a"
proof (induction rs arbitrary: st)
  case Nil
  show ?case by simp
next
  case (Cons r rs)
  obtain pid status killed where r: "r = (pid, status, killed)" by (cases r)
  show ?case unfolding r by (simp add: Let_def Cons.IH)
qed

lemma builtin_cd_view: "builtin_cd os argv argc st = Ok st' \<Longrightarrow> view st' = view st"
  by (auto simp: builtin_cd_def Let_def split: if_splits option.splits sum.splits)

lemma builtin_cd_not_Exec: "builtin_cd os argv argc st \<noteq> Exec st' p a"
  by (auto simp: builtin_cd_def Let_def split: if_splits option.splits sum.splits)

lemma parent_view: "parent os pid st = Ok st' \<Longrightarrow> view st' = view st"
  by (auto simp: parent_def Let_def split: if_splits)

lemma parent_not_Exec: "parent os pid st \<noteq> Exec st' p a"
  by (auto simp: parent_def Let_def split: if_splits)

lemma redirect_view: "redirect os words i flags target msg st = Ok st' \<Longrightarrow> view st' = view st"
  by (auto simp: redirect_def Let_def split: sum.splits option.splits if_splits)

lemma redirect_not_Exec: "redirect os words i flags target msg st \<noteq> Exec st' p a"
  by (auto simp: redirect_def Let_def split: sum.splits option.splits if_splits)

lemma redirect_loop_view: "redirect_loop os words i st = Ok st' \<Longrightarrow> view st' = view st"
proof (induction os words i st rule: redirect_loop.induct)
  case (1 os words i st)
  show ?case
  proof (cases "words_at words i")
    case (Inl f)
    with "1.prems" show ?thesis by (subst (asm) redirect_loop.simps) simp
  next
    case (Inr wo)
    show ?thesis
    proof (cases wo)
      case None
      with Inr "1.prems" show ?thesis by (subst (asm) redirect_loop.simps) simp
    next
      case (Some w)
      define r where "r =
        (if w = ''>'' then
           redirect os words i WriteCreateTruncate 1 ''open file for redirection output'' st
         else if w = ''<'' then
           redirect os words i ReadOnly 0 ''open file for redirection input'' st
         else if w = ''>>'' then
           redirect os words i WriteCreateAppend 1 ''open file for redirection output append'' st
         else Ok st)"
      from "1.prems" Inr Some obtain st1 where r1: "r = Ok st1"
        and rec: "redirect_loop os words (Suc i) st1 = Ok st'"
        by (subst (asm) redirect_loop.simps) (auto simp: r_def split: result.splits)
      from r1 have "view st1 = view st"
        by (auto simp: r_def split: if_splits dest: redirect_view)
      moreover have "view st' = view st1"
        using "1.IH" [OF Inr Some r1 [unfolded r_def] rec] .
      ultimately show ?thesis by simp
    qed
  qed
qed

lemma redirect_loop_not_Exec: "redirect_loop os words i st \<noteq> Exec st' p a"
proof (induction os words i st rule: redirect_loop.induct)
  case (1 os words i st)
  show ?case
  proof
    assume ex: "redirect_loop os words i st = Exec st' p a"
    then obtain w where wa: "words_at words i = Inr (Some w)"
      by (subst (asm) redirect_loop.simps) (auto split: sum.splits option.splits)
    define r where "r =
        (if w = ''>'' then
           redirect os words i WriteCreateTruncate 1 ''open file for redirection output'' st
         else if w = ''<'' then
           redirect os words i ReadOnly 0 ''open file for redirection input'' st
         else if w = ''>>'' then
           redirect os words i WriteCreateAppend 1 ''open file for redirection output append'' st
         else Ok st)"
    have nr: "r \<noteq> Exec st' p a"
      by (simp add: r_def redirect_not_Exec)
    from ex wa nr obtain st1 where r1: "r = Ok st1"
      and rec: "redirect_loop os words (Suc i) st1 = Exec st' p a"
      by (subst (asm) redirect_loop.simps) (auto simp: r_def split: result.splits)
    from "1.IH" [OF wa refl r1 [unfolded r_def]] rec show False by simp
  qed
qed

lemma exec_program_not_Ok: "exec_program os words_argv st \<noteq> Ok st'"
  by (auto simp: exec_program_def Let_def split: sum.splits option.splits if_splits)

lemma exec_program_Exec: "exec_program os words_argv st = Exec st' p a \<Longrightarrow> view st' = view st"
  by (auto simp: exec_program_def Let_def split: sum.splits option.splits if_splits)

lemma child_not_Ok: "child os words words_argv st \<noteq> Ok st'"
  by (simp add: child_def and_then_Ok exec_program_not_Ok)

lemma view_restore_defaults:
  "view (restore_defaults st) =
   (ppgid st, proc_pgrp st, SIGINT_default st, SIGTSTP_default st, SIGINT_default st, SIGTSTP_default st)"
  by (simp add: view_def restore_defaults_def sigaction_def Let_def)

lemma child_Exec:
  assumes "child os words words_argv st = Exec st' p a"
  shows "disp_SIGINT st' = SIGINT_default st \<and> disp_SIGTSTP st' = SIGTSTP_default st"
proof -
  from assms obtain st2 where rl: "redirect_loop os words 0 (restore_defaults st) = Ok st2"
    and ex: "exec_program os words_argv st2 = Exec st' p a"
    by (auto simp: child_def and_then_Exec redirect_loop_not_Exec)
  from redirect_loop_view [OF rl] exec_program_Exec [OF ex]
  have "view st' = (ppgid st, proc_pgrp st, SIGINT_default st, SIGTSTP_default st,
                     SIGINT_default st, SIGTSTP_default st)"
    by (simp add: view_restore_defaults)
  then show ?thesis by (simp add: view_def)
qed

lemma builtin_exit_not_Ok: "builtin_exit strtol argv argc st \<noteq> Ok st'"
  by (auto simp: builtin_exit_def Let_def split: sum.splits option.splits prod.splits)

lemma builtin_exit_not_Exec: "builtin_exit strtol argv argc st \<noteq> Exec st' p a"
  by (auto simp: builtin_exit_def Let_def split: sum.splits option.splits prod.splits)

lemma execute_nonbuiltin_cmds_view:
  "execute_nonbuiltin_cmds os words words_argv st = Ok st' \<Longrightarrow> view st' = view st"
  by (auto simp: execute_nonbuiltin_cmds_def Let_def child_not_Ok
      split: if_splits sum.splits option.splits dest!: parent_view)

lemma execute_nonbuiltin_cmds_Exec:
  "execute_nonbuiltin_cmds os words words_argv st = Exec st' p a \<Longrightarrow>
     disp_SIGINT st' = SIGINT_default st \<and> disp_SIGTSTP st' = SIGTSTP_default st"
  by (auto simp: execute_nonbuiltin_cmds_def Let_def parent_not_Exec syscall_def
      split: if_splits sum.splits option.splits dest!: child_Exec)

lemma execute_cmds_view:
  "execute_cmds strtol os words words_argv words_argc st = Ok st' \<Longrightarrow> view st' = view st"
  by (auto simp: execute_cmds_def builtin_exit_not_Ok
      split: if_splits sum.splits option.splits
      dest: builtin_cd_view execute_nonbuiltin_cmds_view)

lemma execute_cmds_Exec:
  "execute_cmds strtol os words words_argv words_argc st = Exec st' p a \<Longrightarrow>
     disp_SIGINT st' = SIGINT_default st \<and> disp_SIGTSTP st' = SIGTSTP_default st"
  by (auto simp: execute_cmds_def builtin_exit_not_Exec builtin_cd_not_Exec
      split: if_splits sum.splits option.splits
      dest: execute_nonbuiltin_cmds_Exec)

lemma process_line_view:
  assumes "process_line strtol os line st = Ok (l', st')"
  shows "view st' = view st"
proof -
  from assms have "st' = st \<or>
      (\<exists>words words_argv words_argc flag.
         execute_cmds strtol os words words_argv words_argc (st\<lparr>bg_flag := flag\<rparr>) = Ok st')"
    by (auto simp: process_line_def Let_def and_then_Ok
        split: sum.splits if_splits option.splits prod.splits)
  then show ?thesis
    by (auto dest!: execute_cmds_view)
qed

lemma process_line_loop_top:
  "process_line strtol os line st = Ok (l', st') \<Longrightarrow> l' = loop_top \<or> l' = prompt"
  by (auto simp: process_line_def Let_def and_then_Ok
      split: sum.splits if_splits option.splits prod.splits)

lemma process_line_Exec:
  assumes "process_line strtol os line st = Exec st' p a"
  shows "disp_SIGINT st' = SIGINT_default st \<and> disp_SIGTSTP st' = SIGTSTP_default st"
proof -
  from assms have
      "\<exists>words words_argv words_argc flag.
         execute_cmds strtol os words words_argv words_argc (st\<lparr>bg_flag := flag\<rparr>) = Exec st' p a"
    by (auto simp: process_line_def Let_def and_then_Exec
        split: sum.splits if_splits option.splits prod.splits)
  then show ?thesis
    by (auto dest!: execute_cmds_Exec)
qed

lemma ignore_SIGINT_fields [simp]:
  "ppgid (ignore_SIGINT st) = ppgid st"
  "proc_pgrp (ignore_SIGINT st) = proc_pgrp st"
  "disp_SIGTSTP (ignore_SIGINT st) = disp_SIGTSTP st"
  "SIGINT_default (ignore_SIGINT st) = SIGINT_default st"
  "SIGTSTP_default (ignore_SIGINT st) = SIGTSTP_default st"
  "sa_handler (disp_SIGINT (ignore_SIGINT st)) = SIG_IGN"
  by (simp_all add: ignore_SIGINT_def sigaction_def Let_def)

lemma setup_fields [simp]:
  "ppgid (SIGINT_setup (SIGTSTP_setup st)) = ppgid st"
  "proc_pgrp (SIGINT_setup (SIGTSTP_setup st)) = proc_pgrp st"
  "SIGINT_default (SIGINT_setup (SIGTSTP_setup st)) = disp_SIGINT st"
  "SIGTSTP_default (SIGINT_setup (SIGTSTP_setup st)) = disp_SIGTSTP st"
  "sa_handler (disp_SIGTSTP (SIGINT_setup (SIGTSTP_setup st))) = SIG_IGN"
  "sa_handler (disp_SIGINT (SIGINT_setup (SIGTSTP_setup st))) = SIGINT_handler"
  by (simp_all add: SIGINT_setup_def SIGTSTP_setup_def sigaction_def Let_def)

lemma at_prompt_line:
  assumes "at_prompt argc strtol os st = r" "r = Ok (l', st') \<or> r = Exec st' p a"
  shows "(l' = smallsh \<and> r = Ok (l', st') \<and> view st' = view st) \<or>
         (\<exists>line st2. view st2 = view st \<and> process_line strtol os line (ignore_SIGINT st2) = r)"
proof -
  from assms obtain st1 where b: "bg_handler (reaped os) st = Ok st1"
    by (auto simp: at_prompt_def and_then_Ok and_then_Exec bg_handler_not_Exec)
  from bg_handler_view [OF b] have v1: "view st1 = view st" .
  define st2 where "st2 = (if argc \<noteq> 2 then print_prompt st1 else st1)"
  have v2: "view st2 = view st" by (simp add: st2_def v1)
  from assms(1) b have r: "(case getline os of
         EOF \<Rightarrow> Exit 0 st2
       | EINTR \<Rightarrow> Ok (smallsh, st2)
       | ReadError \<Rightarrow> Exit 1 (eprint ''getline'' st2)
       | Line line \<Rightarrow> process_line strtol os line (ignore_SIGINT st2)) = r"
    unfolding st2_def by (simp add: at_prompt_def and_then_def Let_def)
  show ?thesis
  proof (cases "getline os")
    case (Line line)
    with r have "process_line strtol os line (ignore_SIGINT st2) = r" by simp
    with v2 show ?thesis by blast
  next
    case EOF
    with r assms(2) show ?thesis by auto
  next
    case EINTR
    with r v2 assms(2) show ?thesis by auto
  next
    case ReadError
    with r assms(2) show ?thesis by auto
  qed
qed

lemma at_prompt_Ok:
  assumes "at_prompt argc strtol os st = Ok (l', st')"
  shows "ppgid st' = ppgid st \<and> proc_pgrp st' = proc_pgrp st \<and> disp_SIGTSTP st' = disp_SIGTSTP st \<and>
         (l' = loop_top \<longrightarrow> sa_handler (disp_SIGINT st') = SIG_IGN)"
proof -
  from at_prompt_line [OF assms, of l' st']
  consider "l' = smallsh" "view st' = view st"
    | line st2 where "view st2 = view st" "process_line strtol os line (ignore_SIGINT st2) = Ok (l', st')"
    by auto
  then show ?thesis
  proof cases
    case 1
    then show ?thesis by (simp add: view_def)
  next
    case 2
    from process_line_view [OF 2(2)] have "view st' = view (ignore_SIGINT st2)" .
    with 2(1) show ?thesis by (simp add: view_def)
  qed
qed

lemma at_prompt_Exec:
  assumes "at_prompt argc strtol os st = Exec st' p a"
  shows "disp_SIGINT st' = SIGINT_default st \<and> disp_SIGTSTP st' = SIGTSTP_default st"
proof -
  from at_prompt_line [OF assms, of undefined st' p a]
  obtain line st2 where v: "view st2 = view st"
    and pl: "process_line strtol os line (ignore_SIGINT st2) = Exec st' p a"
    by auto
  from process_line_Exec [OF pl] v show ?thesis by (simp add: view_def)
qed

lemma enter_smallsh_fields:
  assumes "enter_smallsh argc os st = Ok st1"
  shows "ppgid st1 = proc_pgrp st" "proc_pgrp st1 = proc_pgrp st"
    "disp_SIGINT st1 = disp_SIGINT st" "disp_SIGTSTP st1 = disp_SIGTSTP st"
  using assms by (auto simp: enter_smallsh_def getpgrp_def setenv_def split: if_splits)

lemma at_label_guard:
  assumes "at_label argc os l st = Ok st'" "l \<noteq> smallsh \<longrightarrow> ppgid st = proc_pgrp st"
  shows "ppgid st' = proc_pgrp st'"
proof (cases l)
  case smallsh
  with assms(1) obtain st1 where e: "enter_smallsh argc os st = Ok st1"
    and s: "st' = SIGINT_setup (SIGTSTP_setup st1)"
    by (auto simp: at_label_def and_then_Ok)
  from enter_smallsh_fields [OF e] s show ?thesis by simp
next
  case loop_top
  with assms show ?thesis by (auto simp: at_label_def)
next
  case prompt
  with assms show ?thesis by (auto simp: at_label_def)
qed

lemma at_label_setup:
  assumes "at_label argc os l st = Ok st'" "l \<noteq> prompt"
  shows "SIGINT_default st' = disp_SIGINT st \<and> SIGTSTP_default st' = disp_SIGTSTP st \<and>
         sa_handler (disp_SIGTSTP st') = SIG_IGN"
proof (cases l)
  case smallsh
  with assms(1) obtain st1 where e: "enter_smallsh argc os st = Ok st1"
    and s: "st' = SIGINT_setup (SIGTSTP_setup st1)"
    by (auto simp: at_label_def and_then_Ok)
  from enter_smallsh_fields [OF e] s show ?thesis by simp
next
  case loop_top
  with assms show ?thesis by (auto simp: at_label_def)
next
  case prompt
  with assms show ?thesis by simp
qed

lemma at_label_not_Exec: "at_label argc os l st \<noteq> Exec st' p a"
  by (auto simp: at_label_def and_then_Exec enter_smallsh_def split: label.splits if_splits)

lemma main_pass_guard:
  assumes "main_pass argc strtol os l st = Ok (l', st')" "l \<noteq> smallsh \<longrightarrow> ppgid st = proc_pgrp st"
  shows "ppgid st' = proc_pgrp st'"
proof -
  from assms(1) obtain st1 where a: "at_label argc os l st = Ok st1"
    and p: "at_prompt argc strtol os st1 = Ok (l', st')"
    by (auto simp: main_pass_def and_then_Ok)
  from at_label_guard [OF a assms(2)] at_prompt_Ok [OF p] show ?thesis
    by simp
qed

lemma main_pass_child:
  assumes "main_pass argc strtol os l st = Exec st' p a" "l \<noteq> prompt"
  shows "disp_SIGINT st' = disp_SIGINT st \<and> disp_SIGTSTP st' = disp_SIGTSTP st"
proof -
  from assms(1) obtain st1 where a: "at_label argc os l st = Ok st1"
    and p: "at_prompt argc strtol os st1 = Exec st' p a"
    by (auto simp: main_pass_def and_then_Exec at_label_not_Exec)
  from at_label_setup [OF a assms(2)] at_prompt_Exec [OF p] show ?thesis by simp
qed

lemma main_pass_ignores:
  assumes "main_pass argc strtol os l st = Ok (loop_top, st')" "l \<noteq> prompt"
  shows "sa_handler (disp_SIGINT st') = SIG_IGN \<and> sa_handler (disp_SIGTSTP st') = SIG_IGN"
proof -
  from assms(1) obtain st1 where a: "at_label argc os l st = Ok st1"
    and p: "at_prompt argc strtol os st1 = Ok (loop_top, st')"
    by (auto simp: main_pass_def and_then_Ok)
  from at_label_setup [OF a assms(2)] at_prompt_Ok [OF p] show ?thesis by simp
qed

lemma later_child_ignores:
  assumes "main_pass argc strtol os1 l st = Ok (loop_top, st1)" "l \<noteq> prompt"
    and "main_pass argc strtol os2 loop_top st1 = Exec st2 p a"
  shows "sa_handler (disp_SIGINT st2) = SIG_IGN \<and> sa_handler (disp_SIGTSTP st2) = SIG_IGN"
  using main_pass_ignores [OF assms(1,2)] main_pass_child [OF assms(3)] by simp

lemma run_guard:
  assumes "run argc strtol oss l st = Ok (l', st')" "l \<noteq> smallsh \<longrightarrow> ppgid st = proc_pgrp st"
  shows "l' \<noteq> smallsh \<longrightarrow> ppgid st' = proc_pgrp st'"
  using assms
proof (induction oss arbitrary: l st)
  case Nil
  then show ?case by simp
next
  case (Cons os oss)
  from Cons.prems(1) obtain l1 st1 where m: "main_pass argc strtol os l st = Ok (l1, st1)"
    and r: "run argc strtol oss l1 st1 = Ok (l', st')"
    by (auto simp: and_then_Ok)
  from main_pass_guard [OF m Cons.prems(2)] have "l1 \<noteq> smallsh \<longrightarrow> ppgid st1 = proc_pgrp st1" by simp
  from Cons.IH [OF r this] show ?case .
qed

section \<open>Runs on concrete input\<close>

text \<open>
  Facts for evaluating the main loop on the lines \<open>ls\<close>, \<open>< file\<close> and \<open>&\<close>: the
  definitions to unfold, and what the tokenizer, the expander and the parser return.
\<close>

lemmas tokenizer_eval = wordsplit_def skip_space.simps read_word.simps split_loop.simps deref_def
  isspace_def MAX_WORDS_def

lemmas parser_eval = parse_command_def copy_args.simps words_at_def is_redirection_def load_def
  store_def size_t_pred_def malloc_argv_def MAX_WORDS_def

lemmas shell_eval = main_pass_def at_label_def at_prompt_def process_line_def ignore_SIGINT_def
  and_then_def enter_smallsh_def SIGINT_setup_def SIGTSTP_setup_def sigaction_def setenv_def
  getenv_def getpgrp_def getpid_def syscall_def eprint_def print_prompt_def Let_def
  execute_cmds_def execute_nonbuiltin_cmds_def child_def restore_defaults_def exec_program_def
  parent_def EXIT_FAILURE_def load_def words_at_def MAX_WORDS_def

lemma expand_words_plain:
  "\<forall>w \<in> set ws. CHR ''$'' \<notin> set w \<and> NUL \<notin> set w \<Longrightarrow> expand_words e ws = Some ws"
proof (induction ws)
  case Nil
  show ?case by (simp add: expand_words_def)
next
  case (Cons w ws)
  then have "expand_words e ws = Some ws" by simp
  then have t: "those (map (\<lambda>w. expand e (cstr w)) ws) = Some ws" by (simp add: expand_words_def)
  from Cons.prems have "cstr w = w" by (auto simp: cstr_def)
  moreover from Cons.prems have "expand e w = Some w"
    by (simp add: expand_refines expand_spec_no_dollar)
  ultimately show ?case using t by (simp add: expand_words_def)
qed

lemma wordsplit_ls: "wordsplit ''ls'' = Inr [''ls'']"
  by (simp add: tokenizer_eval)

lemma parse_ls: "parse_command [''ls''] (Suc 0) (malloc_argv (Suc 0)) = Inr ([Str ''ls'', Null], 1, 0)"
  by (simp add: parser_eval)

lemma expand_ls: "expand_words e [''ls''] = Some [''ls'']"
  by (rule expand_words_plain) simp

lemma redirect_ls: "redirect_loop os [''ls''] 0 st = Ok st"
  by (simp add: redirect_loop.simps words_at_def MAX_WORDS_def)

lemma wordsplit_redirection_only: "wordsplit ''< file'' = Inr [''<'', ''file'']"
  by (simp add: tokenizer_eval)

lemma expand_redirection_only: "expand_words e [''<'', ''file''] = Some [''<'', ''file'']"
  by (rule expand_words_plain) simp

lemma parse_redirection_only:
  "parse_command [''<'', ''file''] (Suc (Suc 0)) (malloc_argv (Suc (Suc 0))) = Inl (OutOfBounds (2 ^ 64 - 1))"
  by (simp add: parser_eval)

lemma wordsplit_ampersand: "wordsplit ''&'' = Inr [''&'']"
  by (simp add: tokenizer_eval)

lemma expand_ampersand: "expand_words e [''&''] = Some [''&'']"
  by (rule expand_words_plain) simp

lemma parse_ampersand:
  "parse_command [''&''] (Suc 0) (malloc_argv (Suc 0)) = Inr ([Null, Uninit], 0, 1)"
  by (simp add: parser_eval)

section \<open>Properties of the signal dispositions and of command dispatch\<close>

text \<open>
  Claim C2. The claim says that in every iteration the child gets the dispositions that
  were in force before the interpreter installed its own. The two setup functions run at
  the top of every iteration and save, as "default", whatever is in force at that moment;
  from the second iteration on that is what the interpreter itself installed. Started
  with both signals at their default and given the line \<open>ls\<close> twice, the child spawned
  for the second \<open>ls\<close> reaches \<open>execvp\<close> with \<open>SIGINT\<close> and \<open>SIGTSTP\<close> ignored. In the
  first iteration the child does get the dispositions of the start
  (\<open>first_child_restores\<close>, and \<open>main_pass_child\<close> for any start state), and after any
  completed command the next child gets both signals ignored (\<open>later_child_ignores\<close>).
\<close>

theorem second_child_inherits_ignore:
  "\<exists>st. run 1 strtol [reply, reply\<lparr>fork_ret := 0\<rparr>] smallsh boot = Exec st ''ls'' [Str ''ls'', Null] \<and>
        sa_handler (disp_SIGINT st) = SIG_IGN \<and> sa_handler (disp_SIGTSTP st) = SIG_IGN \<and>
        sa_handler (disp_SIGINT boot) = SIG_DFL \<and> sa_handler (disp_SIGTSTP boot) = SIG_DFL"
  by (simp add: shell_eval boot_def reply_def wordsplit_ls expand_ls parse_ls redirect_ls)


lemma first_child_restores:
  "\<exists>st. run 1 strtol [reply\<lparr>fork_ret := 0\<rparr>] smallsh boot = Exec st ''ls'' [Str ''ls'', Null] \<and>
        disp_SIGINT st = disp_SIGINT boot \<and> disp_SIGTSTP st = disp_SIGTSTP boot"
  by (simp add: shell_eval boot_def reply_def wordsplit_ls expand_ls parse_ls redirect_ls)

text \<open>
  Claim C9. The claim says that the argument vector is never empty where its last entry
  is tested and where its first entry is looked up. For the line \<open>< file\<close> the copying
  pass leaves nothing, and the test for the background marker reads the entry at index
  \<open>words_argc - 1 = 2^64 - 1\<close>. For the line \<open>&\<close> the marker itself is the only entry; it
  is replaced by the terminator, and the dispatch hands the null first entry to \<open>strcmp\<close>.
\<close>

theorem empty_argument_vector_faults:
  "run 1 strtol [reply\<lparr>getline := Line ''< file''\<rparr>] smallsh boot = Fault (OutOfBounds (2 ^ 64 - 1)) \<and>
   run 1 strtol [reply\<lparr>getline := Line ''&''\<rparr>] smallsh boot = Fault NullPointer"
  by (simp add: shell_eval boot_def reply_def wordsplit_redirection_only expand_redirection_only
      parse_redirection_only wordsplit_ampersand expand_ampersand parse_ampersand)


section \<open>Properties of the background reaper\<close>

text \<open>
  The reaper as the specification words it: every reaped child is reported, and continued
  if it is stopped, with no test of the process group.
\<close>

fun bg_handler_unconditional :: "(int \<times> wait_status \<times> int) list \<Rightarrow> shell \<Rightarrow> shell result" where
  "bg_handler_unconditional [] st = Ok (syscall (Waitpid (- 1) [WNOHANG, WUNTRACED]) st)"
| "bg_handler_unconditional ((pid, status, killed) # rest) st =
     (let st = syscall (Waitpid (- 1) [WNOHANG, WUNTRACED]) st
      in if pid > 0 then
           (if WIFEXITED status then
              bg_handler_unconditional rest
                (eprint (''Child process '' @ sprintf_d pid @ '' done. Exit status ''
                           @ sprintf_d (WEXITSTATUS status) @ ''.'' @ NL) st)
            else if WIFSIGNALED status then
              bg_handler_unconditional rest
                (eprint (''Child process '' @ sprintf_d pid @ '' done. Signaled ''
                           @ sprintf_d (WTERMSIG status) @ ''.'' @ NL) st)
            else if WIFSTOPPED status then
              (let st = syscall (Kill pid SIGCONT) st
               in if killed < 0 then Exit EXIT_FAILURE (eprint ''kill'' st)
                  else bg_handler_unconditional rest
                         (eprint (''Child process '' @ sprintf_d pid @ '' stopped. Continuing.'' @ NL) st))
            else bg_handler_unconditional rest st)
         else Ok st)"

lemma bg_handler_guard_true:
  "getpgrp st = ppgid st \<Longrightarrow> bg_handler rs st = bg_handler_unconditional rs st"
proof (induction rs arbitrary: st)
  case Nil
  show ?case by simp
next
  case (Cons r rs)
  obtain pid status killed where r: "r = (pid, status, killed)" by (cases r)
  have g: "getpgrp (syscall c st) = ppgid (syscall c st)" for c
    using Cons.prems by (simp add: getpgrp_def syscall_def)
  have g1: "getpgrp (eprint s (syscall c st)) = ppgid (eprint s (syscall c st))" for s c
    using Cons.prems by (simp add: getpgrp_def syscall_def eprint_def)
  have g2: "getpgrp (eprint s (syscall d (syscall c st))) = ppgid (eprint s (syscall d (syscall c st)))" for s c d
    using Cons.prems by (simp add: getpgrp_def syscall_def eprint_def)
  show ?case
    unfolding r by (simp add: Let_def g Cons.IH [OF g] Cons.IH [OF g1] Cons.IH [OF g2])
qed

text \<open>
  Claim C8. In every state in which the interpreter calls the reaper (after any number of
  passes from the start of \<open>main\<close>, at the label where the next pass begins), the process
  group read by \<open>getpgrp\<close> equals the saved \<open>ppgid\<close>, because nothing the program does
  changes either after \<open>ppgid\<close> is set; the guard is therefore true for every reaped
  child, and the reaper gives the same result as the reaper without the guard.
\<close>

theorem bg_handler_guard_redundant:
  assumes "run argc strtol oss smallsh start = Ok (l, st)" "at_label argc os l st = Ok st'"
  shows "getpgrp st' = ppgid st' \<and> bg_handler rs st' = bg_handler_unconditional rs st'"
proof -
  from run_guard [OF assms(1)] have "l \<noteq> smallsh \<longrightarrow> ppgid st = proc_pgrp st" by simp
  from at_label_guard [OF assms(2) this] have g: "getpgrp st' = ppgid st'"
    by (simp add: getpgrp_def)
  with bg_handler_guard_true [OF g] show ?thesis by simp
qed


theorem bg_handler_guard_redundant_witness:
  "\<exists>l st st'. run 1 (\<lambda>s. (0, 0)) [reply] smallsh boot = Ok (l, st) \<and>
      at_label 1 reply l st = Ok st' \<and> getpgrp st' = ppgid st' \<and>
      bg_handler [(501, WStopped 20, 0), (502, WExited 0, 0)] st' =
        bg_handler_unconditional [(501, WStopped 20, 0), (502, WExited 0, 0)] st'"
proof -
  have "\<exists>st. run 1 (\<lambda>s. (0, 0)) [reply] smallsh boot = Ok (loop_top, st)"
    by (simp add: shell_eval boot_def reply_def wordsplit_ls expand_ls parse_ls redirect_ls)
  then obtain st where r: "run 1 (\<lambda>s. (0, 0)) [reply] smallsh boot = Ok (loop_top, st)" ..
  have a: "at_label 1 reply loop_top st = Ok (SIGINT_setup (SIGTSTP_setup st))"
    by (simp add: at_label_def)
  from bg_handler_guard_redundant [OF r a] r a show ?thesis by blast
qed


end
